theory Spec2Isabelle
  imports Complex_Main
begin

section \<open>Data model of the highway network wrapper\<close>

text \<open>
  The development follows \<^verbatim>\<open>sfdata_wrangler/HwyNetwork.py\<close>. Python floats are
  modelled as real numbers, so neither rounding nor overflow to an infinity or to a
  not-a-number is represented; node and link identifiers
  and matrix indices are Python integers. Every exception the methods can raise is a
  value of \<open>error\<close> returned on the left of a sum.
\<close>

datatype error = KeyError | IndexError | ZeroDivisionError | DtaError

text \<open>
  The network object \<^verbatim>\<open>self.net\<close> comes from the \<^verbatim>\<open>dta\<close> library. Only the parts
  the wrapper reads are kept: the node identifiers in iteration order and, for each road
  link, its identifier, end points, free-flow time in minutes and length.
\<close>

record link =
  getId :: int
  getStartNodeId :: int
  getEndNodeId :: int
  getFreeFlowTTInMin :: real
  getLengthInCoordinateUnits :: real

record network =
  iterNodes :: "int list"
  iterRoadLinks :: "link list"

text \<open>
  \<^verbatim>\<open>net.getLinkForId\<close> and \<^verbatim>\<open>net.getLinkForNodeIdPair\<close> raise \<^verbatim>\<open>DtaError\<close> when
  the network holds no such link.
\<close>

definition getLinkForId :: "network \<Rightarrow> int \<Rightarrow> error + link" where
  "getLinkForId net i =
     (case find (\<lambda>l. getId l = i) (iterRoadLinks net) of
        None \<Rightarrow> Inl DtaError
      | Some l \<Rightarrow> Inr l)"

definition getLinkForNodeIdPair :: "network \<Rightarrow> int option \<Rightarrow> int option \<Rightarrow> error + link" where
  "getLinkForNodeIdPair net a b =
     (case (a, b) of
        (Some x, Some y) \<Rightarrow>
          (case find (\<lambda>l. getStartNodeId l = x \<and> getEndNodeId l = y) (iterRoadLinks net) of
             None \<Rightarrow> Inl DtaError
           | Some l \<Rightarrow> Inr l)
      | _ \<Rightarrow> Inl DtaError)"

text \<open>
  \<^verbatim>\<open>State\<close> and \<^verbatim>\<open>Path\<close> are the value classes of the path inference library; the
  wrapper reads \<^verbatim>\<open>link_id\<close> and \<^verbatim>\<open>offset\<close> of a state and \<^verbatim>\<open>start\<close>, \<^verbatim>\<open>links\<close>
  and \<^verbatim>\<open>end\<close> of a path.
\<close>

record state =
  link_id :: int
  offset :: real

record path =
  pstart :: state
  plinks :: "int list"
  pend :: state

definition Path :: "state \<Rightarrow> int list \<Rightarrow> state \<Rightarrow> path" where
  "Path s ls e = \<lparr>pstart = s, plinks = ls, pend = e\<rparr>"

section \<open>Travel time allocation\<close>

definition getLinkOffsetRatio :: "network \<Rightarrow> state \<Rightarrow> error + real" where
  "getLinkOffsetRatio net st =
     (case getLinkForId net (link_id st) of
        Inl e \<Rightarrow> Inl e
      | Inr l \<Rightarrow>
          (let dist = getLengthInCoordinateUnits l
           in if dist = 0 then Inl ZeroDivisionError else Inr (offset st / dist)))"

text \<open>
  Indexing a Python list or an array of length \<open>len\<close> with \<open>i\<close>: the positions are
  \<open>0\<close> to \<open>len - 1\<close>, the indices \<open>-len\<close> to \<open>-1\<close> name the same positions from the
  back, and any other index raises \<^verbatim>\<open>IndexError\<close>. On an empty list every index
  does, also the \<open>0\<close> and the \<open>len - 1 = -1\<close> that \<^verbatim>\<open>getPathTraversalRatios\<close>
  assigns to.
\<close>

definition position :: "nat \<Rightarrow> int \<Rightarrow> nat option" where
  "position len i =
     (if 0 \<le> i \<and> i < int len then Some (nat i)
      else if i < 0 \<and> - int len \<le> i then Some (nat (int len + i))
      else None)"

definition set_item :: "'a list \<Rightarrow> int \<Rightarrow> ('a \<Rightarrow> 'a) \<Rightarrow> error + 'a list" where
  "set_item xs i f =
     (case position (length xs) i of
        None \<Rightarrow> Inl IndexError
      | Some k \<Rightarrow> Inr (xs[k := f (xs ! k)]))"

definition getPathTraversalRatios :: "network \<Rightarrow> path \<Rightarrow> error + real list" where
  "getPathTraversalRatios net p =
     (let ratios = replicate (length (plinks p)) (1::real)
      in case getLinkOffsetRatio net (pstart p) of
           Inl e \<Rightarrow> Inl e
         | Inr firstOffsetRatio \<Rightarrow>
             (case set_item ratios 0 (\<lambda>r. r - firstOffsetRatio) of
                Inl e \<Rightarrow> Inl e
              | Inr ratios1 \<Rightarrow>
                  (case getLinkOffsetRatio net (pend p) of
                     Inl e \<Rightarrow> Inl e
                   | Inr lastOffsetRatio \<Rightarrow>
                       set_item ratios1 (int (length (plinks p)) - 1)
                         (\<lambda>r. r - (1 - lastOffsetRatio)))))"

text \<open>
  The loop of \<^verbatim>\<open>getPathFreeFlowTTInSeconds\<close> runs over the positions of
  \<^verbatim>\<open>path.links\<close> and reads the ratio at the same position; it is a recursion over the
  two lists side by side, with the running total \<open>tot_tt\<close>.
\<close>

fun ff_loop :: "network \<Rightarrow> (int \<times> real) list \<Rightarrow> real \<Rightarrow> error + real" where
  "ff_loop net [] tot_tt = Inr tot_tt"
| "ff_loop net ((l, r) # rest) tot_tt =
     (case getLinkForId net l of
        Inl e \<Rightarrow> Inl e
      | Inr lk \<Rightarrow> ff_loop net rest (tot_tt + 60 * getFreeFlowTTInMin lk * r))"

definition getPathFreeFlowTTInSeconds :: "network \<Rightarrow> path \<Rightarrow> error + real" where
  "getPathFreeFlowTTInSeconds net p =
     (case getPathTraversalRatios net p of
        Inl e \<Rightarrow> Inl e
      | Inr traversalRatios \<Rightarrow> ff_loop net (zip (plinks p) traversalRatios) 0)"

text \<open>
  The allocation loop: \<open>n\<close> is \<^verbatim>\<open>len(path.links)\<close>, \<open>link_tt\<close> the list built so far.
\<close>

fun alloc_loop ::
  "network \<Rightarrow> real \<Rightarrow> real \<Rightarrow> nat \<Rightarrow> (int \<times> real) list \<Rightarrow> real list \<Rightarrow> error + real list" where
  "alloc_loop net tot_tt tot_ff_time n [] link_tt = Inr link_tt"
| "alloc_loop net tot_tt tot_ff_time n ((l, r) # rest) link_tt =
     (if tot_ff_time < 1 / 10 then
        alloc_loop net tot_tt tot_ff_time n rest (link_tt @ [tot_tt * (1 / real n)])
      else
        (case getLinkForId net l of
           Inl e \<Rightarrow> Inl e
         | Inr lk \<Rightarrow>
             (let ff_time = 60 * getFreeFlowTTInMin lk * r
              in alloc_loop net tot_tt tot_ff_time n rest
                   (link_tt @ [tot_tt * (ff_time / tot_ff_time)]))))"

text \<open>
  \<open>start_time\<close> and \<open>end_time\<close> are given in seconds; the result is the triple
  \<^verbatim>\<open>(path.links, traversalRatios, link_tt)\<close>.
\<close>

definition allocatePathTravelTimeToLinks ::
  "network \<Rightarrow> path \<Rightarrow> real \<Rightarrow> real \<Rightarrow> error + (int list \<times> real list \<times> real list)" where
  "allocatePathTravelTimeToLinks net p start_time end_time =
     (case getPathTraversalRatios net p of
        Inl e \<Rightarrow> Inl e
      | Inr traversalRatios \<Rightarrow>
          (let tot_tt = end_time - start_time
           in case getPathFreeFlowTTInSeconds net p of
                Inl e \<Rightarrow> Inl e
              | Inr tot_ff_time \<Rightarrow>
                  (case alloc_loop net tot_tt tot_ff_time (length (plinks p))
                          (zip (plinks p) traversalRatios) [] of
                     Inl e \<Rightarrow> Inl e
                   | Inr link_tt \<Rightarrow> Inr (plinks p, traversalRatios, link_tt))))"

section \<open>The routing index\<close>

text \<open>
  Entries of the skim matrix are floats that may be infinite; \<^verbatim>\<open>np.isinf\<close> tests
  for that.
\<close>

datatype npfloat = Finite real | PosInf

definition isinf :: "npfloat \<Rightarrow> bool" where
  "isinf c = (case c of PosInf \<Rightarrow> True | Finite x \<Rightarrow> False)"

text \<open>
  The fields \<^verbatim>\<open>n2i\<close>, \<^verbatim>\<open>i2n\<close>, \<^verbatim>\<open>skim\<close> and \<^verbatim>\<open>pred\<close> of the wrapper. The two
  dictionaries are maps; the matrices are lists of rows.
\<close>

record routing_index =
  n2i :: "int \<rightharpoonup> int"
  i2n :: "int \<rightharpoonup> int"
  skim :: "npfloat list list"
  pred :: "int list list"

text \<open>Reading an entry of a matrix, row first.\<close>

definition get_item :: "'a list \<Rightarrow> int \<Rightarrow> error + 'a" where
  "get_item xs i =
     (case position (length xs) i of
        None \<Rightarrow> Inl IndexError
      | Some k \<Rightarrow> Inr (xs ! k))"

definition mat_get :: "'a list list \<Rightarrow> int \<Rightarrow> int \<Rightarrow> error + 'a" where
  "mat_get m i j =
     (case get_item m i of
        Inl e \<Rightarrow> Inl e
      | Inr row \<Rightarrow> get_item row j)"

text \<open>
  The sparse matrix handed to the shortest path routine: the three parallel arrays
  given to \<^verbatim>\<open>csr_matrix\<close> and its shape.
\<close>

record csr_matrix =
  data :: "real list"
  row_ind :: "int list"
  col_ind :: "int list"
  shape :: "int \<times> int"

text \<open>Step 1 of \<^verbatim>\<open>initializeShortestPaths\<close>: the loop over the nodes, with the counter \<open>i\<close>.\<close>

fun index_nodes ::
  "int list \<Rightarrow> (int \<rightharpoonup> int) \<Rightarrow> (int \<rightharpoonup> int) \<Rightarrow> int
   \<Rightarrow> (int \<rightharpoonup> int) \<times> (int \<rightharpoonup> int) \<times> int" where
  "index_nodes [] n2i_m i2n_m i = (n2i_m, i2n_m, i)"
| "index_nodes (node_id # rest) n2i_m i2n_m i =
     index_nodes rest (n2i_m(node_id \<mapsto> i)) (i2n_m(i \<mapsto> node_id)) (i + 1)"

text \<open>Step 2: the loop over the road links, building \<open>anodes\<close>, \<open>bnodes\<close> and \<open>costs\<close>.\<close>

fun collect_links ::
  "(int \<rightharpoonup> int) \<Rightarrow> link list \<Rightarrow> int list \<Rightarrow> int list \<Rightarrow> real list
   \<Rightarrow> error + (int list \<times> int list \<times> real list)" where
  "collect_links n2i_m [] anodes bnodes costs = Inr (anodes, bnodes, costs)"
| "collect_links n2i_m (l # rest) anodes bnodes costs =
     (case n2i_m (getStartNodeId l) of
        None \<Rightarrow> Inl KeyError
      | Some a \<Rightarrow>
          (case n2i_m (getEndNodeId l) of
             None \<Rightarrow> Inl KeyError
           | Some b \<Rightarrow>
               (let cost = 60 * getFreeFlowTTInMin l
                in collect_links n2i_m rest (anodes @ [a]) (bnodes @ [b]) (costs @ [cost]))))"

text \<open>Steps 1 and 2 together: the two dictionaries and the graph.\<close>

definition build_graph ::
  "network \<Rightarrow> error + ((int \<rightharpoonup> int) \<times> (int \<rightharpoonup> int) \<times> csr_matrix)" where
  "build_graph net =
     (case index_nodes (iterNodes net) Map.empty Map.empty 0 of
        (n2i_m, i2n_m, i) \<Rightarrow>
          (let num_nodes = i + 1
           in case collect_links n2i_m (iterRoadLinks net) [] [] [] of
                Inl e \<Rightarrow> Inl e
              | Inr (anodes, bnodes, costs) \<Rightarrow>
                  Inr (n2i_m, i2n_m,
                       \<lparr>data = costs, row_ind = anodes, col_ind = bnodes,
                        shape = (num_nodes, num_nodes)\<rparr>)))"

text \<open>
  Step 3 calls \<^verbatim>\<open>scipy.sparse.csgraph.shortest_path\<close>, a library routine; it is the
  parameter \<open>shortest_path\<close>, from the graph to the pair of matrices.
\<close>

definition initializeShortestPaths ::
  "(csr_matrix \<Rightarrow> npfloat list list \<times> int list list) \<Rightarrow> network \<Rightarrow> error + routing_index" where
  "initializeShortestPaths shortest_path net =
     (case build_graph net of
        Inl e \<Rightarrow> Inl e
      | Inr (n2i_m, i2n_m, graph) \<Rightarrow>
          (case shortest_path graph of
             (sk, pr) \<Rightarrow> Inr \<lparr>n2i = n2i_m, i2n = i2n_m, skim = sk, pred = pr\<rparr>))"

text \<open>
  What the library documents of \<^verbatim>\<open>shortest_path\<close> on a directed graph, as far as it is
  used here: both results have the shape of the graph, and an entry of the distance
  matrix is infinite exactly when the column's vertex cannot be reached from the row's
  vertex along the stored edges.
\<close>

definition edges :: "csr_matrix \<Rightarrow> (int \<times> int) set" where
  "edges g = set (zip (row_ind g) (col_ind g))"

definition has_shape :: "'a list list \<Rightarrow> int \<times> int \<Rightarrow> bool" where
  "has_shape m sh \<longleftrightarrow> int (length m) = fst sh \<and> (\<forall>row \<in> set m. int (length row) = snd sh)"

definition shortest_path_contract ::
  "csr_matrix \<Rightarrow> npfloat list list \<times> int list list \<Rightarrow> bool" where
  "shortest_path_contract g res \<longleftrightarrow>
     has_shape (fst res) (shape g) \<and> has_shape (snd res) (shape g) \<and>
     (\<forall>i j. 0 \<le> i \<and> i < fst (shape g) \<and> 0 \<le> j \<and> j < snd (shape g) \<longrightarrow>
        (isinf (fst res ! nat i ! nat j) \<longleftrightarrow> (i, j) \<notin> (edges g)\<^sup>*))"

section \<open>Resolving paths\<close>

text \<open>
  The tracing loop of \<^verbatim>\<open>getShortestPathNodeSequence\<close>. Nothing in the loop bounds
  the number of rounds, so it is a partial function: \<open>None\<close> stands for a loop that
  never ends.
\<close>

partial_function (option) trace_path ::
  "(int \<rightharpoonup> int) \<Rightarrow> int list list \<Rightarrow> int \<Rightarrow> int \<Rightarrow> int list \<Rightarrow> (error + int list) option" where
  "trace_path i2n_m pr start j p =
     (if j \<noteq> start then
        (case i2n_m j of
           None \<Rightarrow> Some (Inl KeyError)
         | Some node_id \<Rightarrow>
             (case mat_get pr start j of
                Inl e \<Rightarrow> Some (Inl e)
              | Inr j' \<Rightarrow> trace_path i2n_m pr start j' (p @ [node_id])))
      else Some (Inr p))"

text \<open>
  The result is a list of node identifiers; \<open>[None]\<close> is the Python list \<^verbatim>\<open>[None]\<close>
  returned when there is no path.
\<close>

definition getShortestPathNodeSequence ::
  "routing_index \<Rightarrow> int \<Rightarrow> int \<Rightarrow> (error + int option list) option" where
  "getShortestPathNodeSequence ri startNode endNode =
     (case n2i ri startNode of
        None \<Rightarrow> Some (Inl KeyError)
      | Some start \<Rightarrow>
          (case n2i ri endNode of
             None \<Rightarrow> Some (Inl KeyError)
           | Some end_i \<Rightarrow>
               (case mat_get (skim ri) start end_i of
                  Inl e \<Rightarrow> Some (Inl e)
                | Inr cost \<Rightarrow>
                    if isinf cost then Some (Inr [None])
                    else
                      (case trace_path (i2n ri) (pred ri) start end_i [] of
                         None \<Rightarrow> None
                       | Some (Inl e) \<Rightarrow> Some (Inl e)
                       | Some (Inr p) \<Rightarrow>
                           (case i2n ri start of
                              None \<Rightarrow> Some (Inl KeyError)
                            | Some node_id \<Rightarrow> Some (Inr (rev (map Some (p @ [node_id])))))))))"

text \<open>
  The loop of \<^verbatim>\<open>getPaths\<close> over consecutive pairs of the node sequence, appending to
  \<open>linkSeq\<close>.
\<close>

fun links_between :: "network \<Rightarrow> int option list \<Rightarrow> int list \<Rightarrow> error + int list" where
  "links_between net (a # b # rest) linkSeq =
     (case getLinkForNodeIdPair net a b of
        Inl e \<Rightarrow> Inl e
      | Inr l \<Rightarrow> links_between net (b # rest) (linkSeq @ [getId l]))"
| "links_between net nodeSeq linkSeq = Inr linkSeq"

text \<open>
  \<^verbatim>\<open>getPaths\<close> returns a list whose entries are paths or \<^verbatim>\<open>None\<close>.
\<close>

definition getPaths ::
  "network \<Rightarrow> routing_index \<Rightarrow> state \<Rightarrow> state \<Rightarrow> (error + path option list) option" where
  "getPaths net ri s1 s2 =
     (if link_id s1 = link_id s2 then Some (Inr [Some (Path s1 [link_id s1] s2)])
      else
        (case getLinkForId net (link_id s1) of
           Inl e \<Rightarrow> Some (Inl e)
         | Inr l1 \<Rightarrow>
             (case getLinkForId net (link_id s2) of
                Inl e \<Rightarrow> Some (Inl e)
              | Inr l2 \<Rightarrow>
                  (let startNode = getEndNodeId l1; endNode = getStartNodeId l2
                   in case n2i ri startNode of
                        None \<Rightarrow> Some (Inl KeyError)
                      | Some si \<Rightarrow>
                          (case n2i ri endNode of
                             None \<Rightarrow> Some (Inl KeyError)
                           | Some ei \<Rightarrow>
                               (case mat_get (skim ri) si ei of
                                  Inl e \<Rightarrow> Some (Inl e)
                                | Inr cost \<Rightarrow>
                                    if isinf cost then Some (Inr [None])
                                    else
                                      (case getShortestPathNodeSequence ri startNode endNode of
                                         None \<Rightarrow> None
                                       | Some (Inl e) \<Rightarrow> Some (Inl e)
                                       | Some (Inr nodeSeq) \<Rightarrow>
                                           (case links_between net nodeSeq [link_id s1] of
                                              Inl e \<Rightarrow> Some (Inl e)
                                            | Inr linkSeq \<Rightarrow>
                                                Some (Inr [Some (Path s1 (linkSeq @ [link_id s2]) s2)])))))))))"

text \<open>
  \<^verbatim>\<open>getPathsBetweenCollections\<close>: the innermost loop appends one entry to each of
  the three lists for every element of \<open>ps\<close>; the accumulator is
  \<open>(trans1, paths, trans2, num_paths)\<close>.
\<close>

type_synonym collected = "(nat \<times> nat) list \<times> path option list \<times> (nat \<times> nat) list \<times> nat"

fun append_paths :: "nat \<Rightarrow> nat \<Rightarrow> path option list \<Rightarrow> collected \<Rightarrow> collected" where
  "append_paths i1 i2 [] acc = acc"
| "append_paths i1 i2 (p # ps) (trans1, paths, trans2, num_paths) =
     append_paths i1 i2 ps
       (trans1 @ [(i1, num_paths)], paths @ [p], trans2 @ [(num_paths, i2)], num_paths + 1)"

fun inner_loop ::
  "network \<Rightarrow> routing_index \<Rightarrow> state \<Rightarrow> nat \<Rightarrow> state list \<Rightarrow> nat \<Rightarrow> collected
   \<Rightarrow> (error + collected) option" where
  "inner_loop net ri st1 i1 [] i2 acc = Some (Inr acc)"
| "inner_loop net ri st1 i1 (st2 # rest) i2 acc =
     (case getPaths net ri st1 st2 of
        None \<Rightarrow> None
      | Some (Inl e) \<Rightarrow> Some (Inl e)
      | Some (Inr ps) \<Rightarrow> inner_loop net ri st1 i1 rest (i2 + 1) (append_paths i1 i2 ps acc))"

fun outer_loop ::
  "network \<Rightarrow> routing_index \<Rightarrow> state list \<Rightarrow> nat \<Rightarrow> state list \<Rightarrow> collected
   \<Rightarrow> (error + collected) option" where
  "outer_loop net ri [] i1 sc2 acc = Some (Inr acc)"
| "outer_loop net ri (st1 # rest) i1 sc2 acc =
     (case inner_loop net ri st1 i1 sc2 0 acc of
        None \<Rightarrow> None
      | Some (Inl e) \<Rightarrow> Some (Inl e)
      | Some (Inr acc') \<Rightarrow> outer_loop net ri rest (i1 + 1) sc2 acc')"

definition getPathsBetweenCollections ::
  "network \<Rightarrow> routing_index \<Rightarrow> state list \<Rightarrow> state list
   \<Rightarrow> (error + ((nat \<times> nat) list \<times> path option list \<times> (nat \<times> nat) list)) option" where
  "getPathsBetweenCollections net ri sc1 sc2 =
     (case outer_loop net ri sc1 0 sc2 ([], [], [], 0) of
        None \<Rightarrow> None
      | Some (Inl e) \<Rightarrow> Some (Inl e)
      | Some (Inr (trans1, paths, trans2, num_paths)) \<Rightarrow> Some (Inr (trans1, paths, trans2)))"

section \<open>Well-formed paths and the walk through the predecessor matrix\<close>

text \<open>
  A path is valid for a network when the methods above raise nothing on it: it has at
  least one link, every link of it is in the network, and the links of its two states
  are in the network with a length other than zero.
\<close>

definition valid_path :: "network \<Rightarrow> path \<Rightarrow> bool" where
  "valid_path net p \<longleftrightarrow>
     plinks p \<noteq> [] \<and>
     list_all (\<lambda>l. \<not> isl (getLinkForId net l)) (plinks p) \<and>
     (case getLinkForId net (link_id (pstart p)) of
        Inl e \<Rightarrow> False
      | Inr l \<Rightarrow> getLengthInCoordinateUnits l \<noteq> 0) \<and>
     (case getLinkForId net (link_id (pend p)) of
        Inl e \<Rightarrow> False
      | Inr l \<Rightarrow> getLengthInCoordinateUnits l \<noteq> 0)"

text \<open>
  A state is valid when its link is in the network and its offset lies between zero
  and the length of that link.
\<close>

definition valid_state :: "network \<Rightarrow> state \<Rightarrow> bool" where
  "valid_state net st \<longleftrightarrow>
     (case getLinkForId net (link_id st) of
        Inl e \<Rightarrow> False
      | Inr l \<Rightarrow> 0 \<le> offset st \<and> offset st \<le> getLengthInCoordinateUnits l)"

text \<open>
  The description of the node sequence, independent of the loop: walking the row
  \<open>start\<close> of the predecessor matrix backward from \<open>j\<close>, the walk arrives at \<open>start\<close>
  after exactly \<open>k\<close> steps, and the nodes met on the way, \<open>j\<close> first and \<open>start\<close>
  last, are the list returned.
\<close>

fun walk_back ::
  "(int \<rightharpoonup> int) \<Rightarrow> int list list \<Rightarrow> int \<Rightarrow> int \<Rightarrow> nat \<Rightarrow> int list option" where
  "walk_back i2n_m pr start j 0 =
     (if j = start then map_option (\<lambda>n. [n]) (i2n_m start) else None)"
| "walk_back i2n_m pr start j (Suc k) =
     (if j = start then None
      else
        (case i2n_m j of
           None \<Rightarrow> None
         | Some n \<Rightarrow>
             (case mat_get pr start j of
                Inl e \<Rightarrow> None
              | Inr j' \<Rightarrow> map_option (\<lambda>ns. n # ns) (walk_back i2n_m pr start j' k))))"

text \<open>
  An entry of the skim matrix that can be read and is not infinite.
\<close>

definition finite_entry :: "routing_index \<Rightarrow> int \<Rightarrow> int \<Rightarrow> bool" where
  "finite_entry ri i j \<longleftrightarrow> (case mat_get (skim ri) i j of Inl e \<Rightarrow> False | Inr c \<Rightarrow> \<not> isinf c)"

text \<open>
  What the library documents of the predecessor matrix, for the row \<open>start\<close> and the
  indices that carry a node: for an index \<open>j\<close> other than \<open>start\<close> at finite distance
  from \<open>start\<close>, the entry \<open>pred[start, j]\<close> is the index before \<open>j\<close> on a shortest
  path from \<open>start\<close>; it carries a node, is at finite distance from \<open>start\<close>, and its
  shortest path has fewer edges (\<open>hops\<close>) than that of \<open>j\<close>.
\<close>

definition predecessor_contract :: "routing_index \<Rightarrow> int \<Rightarrow> bool" where
  "predecessor_contract ri start \<longleftrightarrow>
     (\<exists>hops :: int \<Rightarrow> nat.
        \<forall>j. j \<noteq> start \<and> i2n ri j \<noteq> None \<and> finite_entry ri start j \<longrightarrow>
          (case mat_get (pred ri) start j of
             Inl e \<Rightarrow> False
           | Inr k \<Rightarrow> i2n ri k \<noteq> None \<and> finite_entry ri start k \<and> hops k < hops j))"

text \<open>
  A pair of states that \<^verbatim>\<open>getPaths\<close> can resolve: the states lie on one link, or
  both links are in the network, the two nodes between them are in the index, the skim
  entry can be read, and it is infinite or else the walk through the predecessor matrix
  arrives and every two consecutive nodes of it are joined by a link of the network.
\<close>

definition resolvable :: "network \<Rightarrow> routing_index \<Rightarrow> state \<Rightarrow> state \<Rightarrow> bool" where
  "resolvable net ri s1 s2 \<longleftrightarrow>
     link_id s1 = link_id s2 \<or>
     (\<exists>l1 l2 si ei c.
        getLinkForId net (link_id s1) = Inr l1 \<and> getLinkForId net (link_id s2) = Inr l2 \<and>
        n2i ri (getEndNodeId l1) = Some si \<and> n2i ri (getStartNodeId l2) = Some ei \<and>
        mat_get (skim ri) si ei = Inr c \<and>
        (isinf c \<or>
         (\<exists>k ns. walk_back (i2n ri) (pred ri) si ei k = Some ns \<and>
                  \<not> isl (links_between net (map Some (rev ns)) [link_id s1]))))"

section \<open>Example networks\<close>

text \<open>
  Three nodes \<open>A = 1\<close>, \<open>B = 2\<close>, \<open>C = 3\<close>; link 10 from A to B with a free-flow time
  of one minute and link 20 from B to C with two minutes.
\<close>

definition net3 :: network where
  "net3 = \<lparr>iterNodes = [1, 2, 3],
           iterRoadLinks =
             [\<lparr>getId = 10, getStartNodeId = 1, getEndNodeId = 2,
               getFreeFlowTTInMin = 1, getLengthInCoordinateUnits = 100\<rparr>,
              \<lparr>getId = 20, getStartNodeId = 2, getEndNodeId = 3,
               getFreeFlowTTInMin = 2, getLengthInCoordinateUnits = 200\<rparr>]\<rparr>"

definition state1 :: state where
  "state1 = \<lparr>link_id = 10, offset = 50\<rparr>"

definition state2 :: state where
  "state2 = \<lparr>link_id = 20, offset = 100\<rparr>"

text \<open>The distances and predecessors of that network, on the four indices of its graph.\<close>

definition skim3 :: "npfloat list list" where
  "skim3 =
     [[Finite 0, Finite 60, Finite 180, PosInf],
      [PosInf, Finite 0, Finite 120, PosInf],
      [PosInf, PosInf, Finite 0, PosInf],
      [PosInf, PosInf, PosInf, Finite 0]]"

definition pred3 :: "int list list" where
  "pred3 =
     [[-9999, 0, 1, -9999],
      [-9999, -9999, 1, -9999],
      [-9999, -9999, -9999, -9999],
      [-9999, -9999, -9999, -9999]]"

definition shortest_path3 :: "csr_matrix \<Rightarrow> npfloat list list \<times> int list list" where
  "shortest_path3 g = (skim3, pred3)"

text \<open>The graph that \<^verbatim>\<open>initializeShortestPaths\<close> builds for that network.\<close>

definition graph3 :: csr_matrix where
  "graph3 = \<lparr>data = [60, 120], row_ind = [0, 1], col_ind = [1, 2], shape = (4, 4)\<rparr>"

definition ri3 :: routing_index where
  "ri3 = \<lparr>n2i = [1 \<mapsto> 0, 2 \<mapsto> 1, 3 \<mapsto> 2], i2n = [0 \<mapsto> 1, 1 \<mapsto> 2, 2 \<mapsto> 3],
          skim = skim3, pred = pred3\<rparr>"

text \<open>Two states on link 10, the second behind the first.\<close>

definition state_ahead :: state where
  "state_ahead = \<lparr>link_id = 10, offset = 80\<rparr>"

definition state_behind :: state where
  "state_behind = \<lparr>link_id = 10, offset = 20\<rparr>"

text \<open>
  A chain of three links whose free-flow times are a thousandth of a second each, and
  a path over all of them.
\<close>

definition net_still :: network where
  "net_still = \<lparr>iterNodes = [1, 2, 3, 4],
           iterRoadLinks =
             [\<lparr>getId = 10, getStartNodeId = 1, getEndNodeId = 2,
               getFreeFlowTTInMin = 1 / 60000, getLengthInCoordinateUnits = 100\<rparr>,
              \<lparr>getId = 20, getStartNodeId = 2, getEndNodeId = 3,
               getFreeFlowTTInMin = 1 / 60000, getLengthInCoordinateUnits = 100\<rparr>,
              \<lparr>getId = 30, getStartNodeId = 3, getEndNodeId = 4,
               getFreeFlowTTInMin = 1 / 60000, getLengthInCoordinateUnits = 100\<rparr>]\<rparr>"

definition path_still :: path where
  "path_still = Path \<lparr>link_id = 10, offset = 0\<rparr> [10, 20, 30] \<lparr>link_id = 30, offset = 100\<rparr>"

text \<open>The network without nodes and links, and the matrices of its one-index graph.\<close>

definition net_empty :: network where
  "net_empty = \<lparr>iterNodes = [], iterRoadLinks = []\<rparr>"

definition shortest_path_empty :: "csr_matrix \<Rightarrow> npfloat list list \<times> int list list" where
  "shortest_path_empty g = ([[Finite 0]], [[-9999]])"

text \<open>A network with one link and no nodes.\<close>

definition net_no_nodes :: network where
  "net_no_nodes = \<lparr>iterNodes = [],
           iterRoadLinks =
             [\<lparr>getId = 10, getStartNodeId = 1, getEndNodeId = 2,
               getFreeFlowTTInMin = 1, getLengthInCoordinateUnits = 100\<rparr>]\<rparr>"

section \<open>Properties of the allocation\<close>

lemma set_item_length: "set_item xs i f = Inr ys \<Longrightarrow> length ys = length xs \<and> xs \<noteq> []"
  by (auto simp: set_item_def position_def split: if_splits option.splits)

lemma ratios_length:
  "getPathTraversalRatios net p = Inr rs \<Longrightarrow> length rs = length (plinks p) \<and> plinks p \<noteq> []"
  by (auto simp: getPathTraversalRatios_def Let_def split: sum.splits dest!: set_item_length)

text \<open>In the branch of a stopped vehicle the loop appends the same share for every link.\<close>

lemma alloc_loop_equal:
  "F < 1 / 10 \<Longrightarrow>
   alloc_loop net T F n zs acc = Inr (acc @ replicate (length zs) (T * (1 / real n)))"
  by (induction zs arbitrary: acc) (auto simp: replicate_app_Cons_same)

text \<open>
  In the proportional branch the loop succeeds wherever the free-flow loop did, and
  the shares it appends add up to the total times the free-flow time added by the
  same links, over the divisor.
\<close>

lemma alloc_loop_prop:
  "ff_loop net zs a = Inr t \<Longrightarrow> \<not> F < 1 / 10 \<Longrightarrow>
   \<exists>tts. alloc_loop net T F n zs acc = Inr tts \<and>
         sum_list tts = sum_list acc + T * ((t - a) / F)"
proof (induction zs arbitrary: a acc)
  case Nil
  then show ?case by simp
next
  case (Cons z zs)
  obtain l r where z: "z = (l, r)" by (cases z)
  from Cons.prems(1) z obtain lk where lk: "getLinkForId net l = Inr lk"
    and rest: "ff_loop net zs (a + 60 * getFreeFlowTTInMin lk * r) = Inr t"
    by (auto split: sum.splits)
  from Cons.IH [OF rest Cons.prems(2), of "acc @ [T * (60 * getFreeFlowTTInMin lk * r / F)]"]
  obtain tts where
    "alloc_loop net T F n zs (acc @ [T * (60 * getFreeFlowTTInMin lk * r / F)]) = Inr tts"
    "sum_list tts = sum_list (acc @ [T * (60 * getFreeFlowTTInMin lk * r / F)]) +
       T * ((t - (a + 60 * getFreeFlowTTInMin lk * r)) / F)"
    by blast
  then show ?case using z lk Cons.prems(2)
    by (simp add: algebra_simps diff_divide_distrib add_divide_distrib)
qed

lemma ff_loop_valid:
  "list_all (\<lambda>l. \<not> isl (getLinkForId net l)) (map fst zs) \<Longrightarrow> \<exists>t. ff_loop net zs a = Inr t"
proof (induction zs arbitrary: a)
  case Nil
  then show ?case by simp
next
  case (Cons z zs)
  then show ?case by (cases z) (auto split: sum.splits)
qed

lemma ratios_valid:
  "valid_path net p \<Longrightarrow> \<exists>rs. getPathTraversalRatios net p = Inr rs"
  by (auto simp: valid_path_def getPathTraversalRatios_def getLinkOffsetRatio_def set_item_def
      position_def Let_def split: sum.splits)

lemma ff_valid:
  assumes "valid_path net p"
  shows "\<exists>F. getPathFreeFlowTTInSeconds net p = Inr F"
proof -
  from ratios_valid [OF assms] obtain rs where rs: "getPathTraversalRatios net p = Inr rs" ..
  then have "map fst (zip (plinks p) rs) = plinks p"
    using ratios_length by simp
  with assms have "list_all (\<lambda>l. \<not> isl (getLinkForId net l)) (map fst (zip (plinks p) rs))"
    by (simp add: valid_path_def)
  from ff_loop_valid [OF this] rs show ?thesis
    by (simp add: getPathFreeFlowTTInSeconds_def)
qed

lemma allocate_valid:
  assumes "valid_path net p"
  shows "\<exists>rs tts. allocatePathTravelTimeToLinks net p s e = Inr (plinks p, rs, tts)"
proof -
  from ratios_valid [OF assms] obtain rs where rs: "getPathTraversalRatios net p = Inr rs" ..
  from ff_valid [OF assms] obtain F where F: "getPathFreeFlowTTInSeconds net p = Inr F" ..
  then have fl: "ff_loop net (zip (plinks p) rs) 0 = Inr F"
    using rs by (simp add: getPathFreeFlowTTInSeconds_def)
  have "\<exists>tts. alloc_loop net (e - s) F (length (plinks p)) (zip (plinks p) rs) [] = Inr tts"
  proof (cases "F < 1 / 10")
    case True
    then show ?thesis by (simp add: alloc_loop_equal)
  next
    case False
    from alloc_loop_prop [OF fl False] show ?thesis by blast
  qed
  with rs F show ?thesis
    by (auto simp: allocatePathTravelTimeToLinks_def Let_def)
qed

lemma net3_valid_path: "valid_path net3 (Path state1 [10, 20] state2)"
  by (simp add: valid_path_def getLinkForId_def net3_def state1_def state2_def Path_def)

lemma net3_allocate:
  "allocatePathTravelTimeToLinks net3 (Path state1 [10, 20] state2) s e =
     Inr ([10, 20], [1 / 2, 1 / 2], [(e - s) * (1 / 3), (e - s) * (2 / 3)])"
  by (simp add: allocatePathTravelTimeToLinks_def getPathFreeFlowTTInSeconds_def
      getPathTraversalRatios_def getLinkOffsetRatio_def getLinkForId_def net3_def
      state1_def state2_def Path_def set_item_def position_def)

text \<open>
  C4, as stated, fails. With \<open>start_time = 90\<close> and \<open>end_time = 0\<close> the allocation on the
  two-link path of the example raises nothing and returns the shares \<open>-30\<close> and \<open>-60\<close>.
\<close>

theorem reversed_times_not_rejected:
  "(0::real) < 90 \<and> \<not> isl (allocatePathTravelTimeToLinks net3 (Path state1 [10, 20] state2) 90 0) \<and>
   allocatePathTravelTimeToLinks net3 (Path state1 [10, 20] state2) 90 0 =
     Inr ([10, 20], [1 / 2, 1 / 2], [- 30, - 60])"
  by (simp add: net3_allocate)

text \<open>
  The two times enter the allocation only as the factor \<open>tot_tt\<close> of every share:
  whether the loop raises, and how many shares it returns, does not depend on them.
\<close>

lemma alloc_loop_times:
  "length acc = length acc' \<Longrightarrow>
   (\<forall>err. alloc_loop net T F n zs acc = Inl err \<longleftrightarrow> alloc_loop net T' F n zs acc' = Inl err) \<and>
   (\<forall>tts. alloc_loop net T F n zs acc = Inr tts \<longrightarrow>
      (\<exists>tts'. alloc_loop net T' F n zs acc' = Inr tts' \<and> length tts' = length tts))"
proof (induction zs arbitrary: acc acc')
  case Nil
  then show ?case by simp
next
  case (Cons z zs)
  obtain l r where z: "z = (l, r)" by (cases z)
  show ?case
  proof (cases "F < 1 / 10")
    case True
    from Cons.IH [of "acc @ [T * (1 / real n)]" "acc' @ [T' * (1 / real n)]"] Cons.prems True z
    show ?thesis by simp
  next
    case False
    show ?thesis
    proof (cases "getLinkForId net l")
      case (Inl e)
      with False z show ?thesis by simp
    next
      case (Inr lk)
      from Cons.IH [of "acc @ [T * (60 * getFreeFlowTTInMin lk * r / F)]"
          "acc' @ [T' * (60 * getFreeFlowTTInMin lk * r / F)]"] Cons.prems False z Inr
      show ?thesis by simp
    qed
  qed
qed

lemma alloc_loop_length:
  "alloc_loop net T F n zs acc = Inr tts \<Longrightarrow> length tts = length acc + length zs"
proof (induction zs arbitrary: acc)
  case Nil
  then show ?case by simp
next
  case (Cons z zs)
  then show ?case by (cases z) (auto split: if_splits sum.splits simp: Let_def)
qed

lemma allocate_times:
  "(\<forall>err. allocatePathTravelTimeToLinks net p s e = Inl err \<longleftrightarrow>
           allocatePathTravelTimeToLinks net p s' e' = Inl err) \<and>
   (\<forall>ls rs tts. allocatePathTravelTimeToLinks net p s e = Inr (ls, rs, tts) \<longrightarrow>
      (\<exists>tts'. allocatePathTravelTimeToLinks net p s' e' = Inr (ls, rs, tts') \<and>
              length tts' = length tts))"
proof (cases "getPathTraversalRatios net p")
  case (Inl e1)
  then show ?thesis by (simp add: allocatePathTravelTimeToLinks_def)
next
  case rs: (Inr rs)
  show ?thesis
  proof (cases "getPathFreeFlowTTInSeconds net p")
    case (Inl e2)
    with rs show ?thesis by (simp add: allocatePathTravelTimeToLinks_def)
  next
    case F: (Inr F)
    from alloc_loop_times [of "[]" "[]" net "e - s" F "length (plinks p)" "zip (plinks p) rs"
        "e' - s'"]
    show ?thesis using rs F
      by (auto simp: allocatePathTravelTimeToLinks_def split: sum.splits)
  qed
qed

lemma allocate_length:
  "allocatePathTravelTimeToLinks net p s e = Inr (ls, rs, tts) \<Longrightarrow>
   ls = plinks p \<and> getPathTraversalRatios net p = Inr rs \<and>
   length rs = length (plinks p) \<and> length tts = length (plinks p)"
proof -
  assume a: "allocatePathTravelTimeToLinks net p s e = Inr (ls, rs, tts)"
  then obtain rs' where rs': "getPathTraversalRatios net p = Inr rs'"
    by (cases "getPathTraversalRatios net p") (simp_all add: allocatePathTravelTimeToLinks_def)
  with a obtain F where F: "getPathFreeFlowTTInSeconds net p = Inr F"
    by (cases "getPathFreeFlowTTInSeconds net p")
       (simp_all add: allocatePathTravelTimeToLinks_def)
  with a rs' obtain tts' where
    al': "alloc_loop net (e - s) F (length (plinks p)) (zip (plinks p) rs') [] = Inr tts'"
    by (cases "alloc_loop net (e - s) F (length (plinks p)) (zip (plinks p) rs') []")
       (simp_all add: allocatePathTravelTimeToLinks_def)
  with a rs' F have eq: "ls = plinks p" "rs = rs'" "tts = tts'"
    by (simp_all add: allocatePathTravelTimeToLinks_def)
  from rs' al' eq have rs: "getPathTraversalRatios net p = Inr rs"
    and al: "alloc_loop net (e - s) F (length (plinks p)) (zip (plinks p) rs) [] = Inr tts"
    and ls: "ls = plinks p" by simp_all
  from ratios_length [OF rs] have len: "length rs = length (plinks p)" by simp
  from alloc_loop_length [OF al] len have "length tts = length (plinks p)" by simp
  with rs ls len show ?thesis by simp
qed

text \<open>
  C4, amended. The allocation does not look at the order of the two times. With
  \<open>end_time < start_time\<close> it returns on every valid path, one share for each link; it
  raises exactly the errors it raises on the same path with any other two times
  \<open>t1\<close>, \<open>t2\<close>; and where it returns, it returns the same links and traversal ratios and
  as many shares as with \<open>t1\<close>, \<open>t2\<close>.
\<close>

theorem reversed_times_not_checked:
  assumes "end_time < start_time"
  shows "(valid_path net p \<longrightarrow>
           (\<exists>rs tts. allocatePathTravelTimeToLinks net p start_time end_time =
                        Inr (plinks p, rs, tts) \<and>
                      getPathTraversalRatios net p = Inr rs \<and>
                      length tts = length (plinks p))) \<and>
         (\<forall>err. allocatePathTravelTimeToLinks net p start_time end_time = Inl err \<longleftrightarrow>
                 allocatePathTravelTimeToLinks net p t1 t2 = Inl err) \<and>
         (\<forall>ls rs tts.
            allocatePathTravelTimeToLinks net p start_time end_time = Inr (ls, rs, tts) \<longrightarrow>
            (\<exists>tts'. allocatePathTravelTimeToLinks net p t1 t2 = Inr (ls, rs, tts') \<and>
                    length tts' = length tts))"
proof (intro conjI impI)
  assume "valid_path net p"
  from allocate_valid [OF this, of start_time end_time] obtain rs tts where
    a: "allocatePathTravelTimeToLinks net p start_time end_time = Inr (plinks p, rs, tts)"
    by blast
  from allocate_length [OF a] a
  show "\<exists>rs tts. allocatePathTravelTimeToLinks net p start_time end_time =
                        Inr (plinks p, rs, tts) \<and>
                      getPathTraversalRatios net p = Inr rs \<and>
                      length tts = length (plinks p)" by blast
next
  show "\<forall>err. allocatePathTravelTimeToLinks net p start_time end_time = Inl err \<longleftrightarrow>
                 allocatePathTravelTimeToLinks net p t1 t2 = Inl err"
    using allocate_times [of net p start_time end_time t1 t2] by blast
next
  show "\<forall>ls rs tts.
            allocatePathTravelTimeToLinks net p start_time end_time = Inr (ls, rs, tts) \<longrightarrow>
            (\<exists>tts'. allocatePathTravelTimeToLinks net p t1 t2 = Inr (ls, rs, tts') \<and>
                    length tts' = length tts)"
    using allocate_times [of net p start_time end_time t1 t2] by blast
qed

theorem reversed_times_not_checked_witness:
  "(0::real) < 90 \<and> valid_path net3 (Path state1 [10, 20] state2) \<and>
   allocatePathTravelTimeToLinks net3 (Path state1 [10, 20] state2) 90 0 =
     Inr ([10, 20], [1 / 2, 1 / 2], [- 30, - 60]) \<and>
   allocatePathTravelTimeToLinks net3 (Path state1 [10, 20] state2) 0 90 =
     Inr ([10, 20], [1 / 2, 1 / 2], [30, 60])"
  using reversed_times_not_checked [of 0 90 net3 "Path state1 [10, 20] state2" 0 90]
  by (simp add: net3_valid_path net3_allocate)

lemma ff_ratios:
  "getPathFreeFlowTTInSeconds net p = Inr F \<Longrightarrow> \<exists>rs. getPathTraversalRatios net p = Inr rs"
  by (auto simp: getPathFreeFlowTTInSeconds_def split: sum.splits)

text \<open>
  C7. When the free-flow time of the path is below a tenth of a second, every link of
  the path receives \<open>(end_time - start_time) * (1 / N)\<close>, \<open>N\<close> the number of links. The
  witness is the path of three links with free-flow times near zero and sixty seconds
  observed: each link receives twenty seconds.
\<close>

theorem stopped_vehicle_equal_split:
  assumes "getPathFreeFlowTTInSeconds net p = Inr F" and "F < 1 / 10"
  shows "\<exists>rs. getPathTraversalRatios net p = Inr rs \<and>
           allocatePathTravelTimeToLinks net p start_time end_time =
             Inr (plinks p, rs,
                  replicate (length (plinks p))
                    ((end_time - start_time) * (1 / real (length (plinks p)))))"
proof -
  from ff_ratios [OF assms(1)] obtain rs where rs: "getPathTraversalRatios net p = Inr rs" ..
  then have "length (zip (plinks p) rs) = length (plinks p)"
    using ratios_length by simp
  with rs assms show ?thesis
    by (simp add: allocatePathTravelTimeToLinks_def alloc_loop_equal)
qed

lemma still_ratios: "getPathTraversalRatios net_still path_still = Inr [1, 1, 1]"
  by (simp add: getPathTraversalRatios_def getLinkOffsetRatio_def getLinkForId_def net_still_def
      path_still_def Path_def set_item_def position_def)

lemma still_ff: "getPathFreeFlowTTInSeconds net_still path_still = Inr (3 / 1000)"
  by (simp add: getPathFreeFlowTTInSeconds_def still_ratios)
     (simp add: getLinkForId_def net_still_def path_still_def Path_def)

theorem stopped_vehicle_equal_split_witness:
  "getPathFreeFlowTTInSeconds net_still path_still = Inr (3 / 1000) \<and> (3 / 1000 :: real) < 1 / 10 \<and>
   allocatePathTravelTimeToLinks net_still path_still 0 60 = Inr ([10, 20, 30], [1, 1, 1], [20, 20, 20])"
  using stopped_vehicle_equal_split [of net_still path_still "3 / 1000" 0 60]
  by (simp add: still_ff still_ratios) (simp add: path_still_def Path_def numeral_3_eq_3)





text \<open>
  C9. The claim holds on paths of two or more links (lemma \<open>ratios_multi_link\<close> below)
  and fails on the single-link path that \<^verbatim>\<open>getPaths\<close> builds for two valid states of one
  link when the second lies behind the first: on link 10 of length 100, from offset 80 to
  offset 20, the traversal ratio is \<open>-3/5\<close>.
\<close>

theorem backward_offsets_negative_ratio:
  "valid_state net3 state_ahead \<and> valid_state net3 state_behind \<and>
   getPaths net3 ri3 state_ahead state_behind =
     Some (Inr [Some (Path state_ahead [10] state_behind)]) \<and>
   getPathTraversalRatios net3 (Path state_ahead [10] state_behind) = Inr [- (3 / 5)]"
  by (simp add: valid_state_def getPaths_def getPathTraversalRatios_def getLinkOffsetRatio_def
      getLinkForId_def net3_def state_ahead_def state_behind_def Path_def set_item_def position_def)

lemma offset_ratio_bounds:
  "valid_state net st \<Longrightarrow> getLinkOffsetRatio net st = Inr r \<Longrightarrow> 0 \<le> r \<and> r \<le> 1"
  by (auto simp: valid_state_def getLinkOffsetRatio_def Let_def divide_le_eq_1
      split: sum.splits if_splits)

lemma ratios_multi_link:
  assumes "getPathTraversalRatios net p = Inr rs" and "2 \<le> length (plinks p)"
    and "valid_state net (pstart p)" and "valid_state net (pend p)"
  shows "\<forall>r \<in> set rs. 0 \<le> r \<and> r \<le> 1"
proof -
  from assms(1) obtain r1 r2 where r1: "getLinkOffsetRatio net (pstart p) = Inr r1"
    and r2: "getLinkOffsetRatio net (pend p) = Inr r2"
    by (auto simp: getPathTraversalRatios_def Let_def split: sum.splits)
  let ?n = "length (plinks p)"
  from assms(1,2) r1 r2
  have rs: "rs = (replicate ?n 1)[0 := 1 - r1, ?n - 1 := 1 - (1 - r2)]"
    by (auto simp: getPathTraversalRatios_def Let_def set_item_def position_def nat_diff_distrib
        split: if_splits)
  from offset_ratio_bounds [OF assms(3) r1] offset_ratio_bounds [OF assms(4) r2]
  have b: "0 \<le> 1 - r1" "1 - r1 \<le> 1" "0 \<le> 1 - (1 - r2)" "1 - (1 - r2) \<le> 1" by auto
  have "set rs \<subseteq> {1 - r1, 1 - (1 - r2), 1}"
    unfolding rs
    by (rule subset_trans [OF set_update_subset_insert])
       (use set_update_subset_insert [of "replicate ?n (1::real)" 0 "1 - r1"] in auto)
  with b show ?thesis by auto
qed

section \<open>Properties of the path resolver\<close>

text \<open>
  The tracing loop against the walk: when the walk arrives after \<open>k\<close> steps the loop
  ends and has appended the nodes of the walk but the last; and a loop that ends with
  a list has followed such a walk.
\<close>

lemma walk_back_trace:
  "walk_back i2n_m pr start j k = Some ns \<Longrightarrow>
   trace_path i2n_m pr start j p = Some (Inr (p @ butlast ns)) \<and> i2n_m start = Some (last ns) \<and> ns \<noteq> []"
proof (induction k arbitrary: j p ns)
  case 0
  then show ?case
    by (subst trace_path.simps) (auto split: if_splits)
next
  case (Suc k)
  from Suc.prems obtain n j' ns' where ne: "j \<noteq> start" and n: "i2n_m j = Some n"
    and j': "mat_get pr start j = Inr j'" and w: "walk_back i2n_m pr start j' k = Some ns'"
    and ns: "ns = n # ns'"
    by (auto split: if_splits option.splits sum.splits)
  from Suc.IH [OF w, of "p @ [n]"] have
    "trace_path i2n_m pr start j' (p @ [n]) = Some (Inr ((p @ [n]) @ butlast ns'))"
    "i2n_m start = Some (last ns')" "ns' \<noteq> []" by auto
  then show ?case using ne n j' ns
    by (subst trace_path.simps) simp
qed

lemma trace_walk_back_aux:
  assumes "trace_path i2n_m pr start j p = Some y"
  shows "\<forall>q n. y = Inr q \<longrightarrow> i2n_m start = Some n \<longrightarrow>
      (\<exists>k ms. q = p @ ms \<and> walk_back i2n_m pr start j k = Some (ms @ [n]))"
proof -
  let ?P = "\<lambda>i2 pr' st j' p' y'. \<forall>q n. y' = Inr q \<longrightarrow> i2 st = Some n \<longrightarrow>
      (\<exists>k ms. q = p' @ ms \<and> walk_back i2 pr' st j' k = Some (ms @ [n]))"
  have "?P i2n_m pr start j p y"
  proof (rule trace_path.raw_induct [where P = ?P])
    show "trace_path i2n_m pr start j p = Some y" by fact
  next
    fix tp :: "(int \<rightharpoonup> int) \<Rightarrow> int list list \<Rightarrow> int \<Rightarrow> int \<Rightarrow> int list \<Rightarrow> (error + int list) option"
    fix i2 pr' st j' p' y'
    assume IH: "\<And>a b c d e z. tp a b c d e = Some z \<Longrightarrow> ?P a b c d e z"
      and step: "(if j' \<noteq> st
        then case i2 j' of None \<Rightarrow> Some (Inl KeyError)
           | Some node_id \<Rightarrow>
               case mat_get pr' st j' of Inl e \<Rightarrow> Some (Inl e)
               | Inr j'' \<Rightarrow> tp i2 pr' st j'' (p' @ [node_id])
        else Some (Inr p')) = Some y'"
    show "?P i2 pr' st j' p' y'"
    proof (intro allI impI)
      fix q n
      assume y: "y' = Inr q" and n: "i2 st = Some n"
      show "\<exists>k ms. q = p' @ ms \<and> walk_back i2 pr' st j' k = Some (ms @ [n])"
      proof (cases "j' = st")
        case True
        with step y have "q = p' @ []" by simp
        moreover from True n have "walk_back i2 pr' st j' 0 = Some ([] @ [n])" by simp
        ultimately show ?thesis by (intro exI conjI)
      next
        case False
        with step y obtain m j'' where m: "i2 j' = Some m"
          and j'': "mat_get pr' st j' = Inr j''"
          and rec: "tp i2 pr' st j'' (p' @ [m]) = Some (Inr q)"
          by (simp split: option.splits sum.splits)
        from IH [OF rec, rule_format, OF refl n] obtain k ms where q: "q = (p' @ [m]) @ ms"
          and w: "walk_back i2 pr' st j'' k = Some (ms @ [n])" by (elim exE conjE)
        from q have "q = p' @ (m # ms)" by simp
        moreover from False m j'' w
        have "walk_back i2 pr' st j' (Suc k) = Some ((m # ms) @ [n])"
          by simp
        ultimately show ?thesis by (intro exI conjI)
      qed
    qed
  qed
  then show ?thesis .
qed

text \<open>
  C5, as stated, fails. From node 3 to node 1 of the example the distance is infinite,
  and the result is the one-element list holding \<^verbatim>\<open>None\<close>.
\<close>

theorem no_path_returns_placeholder:
  "getShortestPathNodeSequence ri3 3 1 = Some (Inr [None])"
  by (simp add: getShortestPathNodeSequence_def ri3_def skim3_def mat_get_def get_item_def
      position_def isinf_def)

lemma wb3: "walk_back (i2n ri3) (pred ri3) 0 2 (Suc (Suc 0)) = Some [3, 2, 1]"
  by (simp add: ri3_def pred3_def mat_get_def get_item_def position_def)

text \<open>
  Under the contract of the predecessor matrix the walk from an index that carries a
  node, at finite distance from \<open>start\<close>, arrives at \<open>start\<close>: by induction on the
  number of edges.
\<close>

lemma contract_walk:
  assumes hops: "\<forall>j. j \<noteq> start \<and> i2n ri j \<noteq> None \<and> finite_entry ri start j \<longrightarrow>
          (case mat_get (pred ri) start j of
             Inl e \<Rightarrow> False
           | Inr k \<Rightarrow> i2n ri k \<noteq> None \<and> finite_entry ri start k \<and> (hops :: int \<Rightarrow> nat) k < hops j)"
    and st: "i2n ri start = Some s0"
  shows "i2n ri j \<noteq> None \<Longrightarrow> finite_entry ri start j \<Longrightarrow>
         \<exists>k ns. walk_back (i2n ri) (pred ri) start j k = Some ns"
proof (induction "hops j" arbitrary: j rule: less_induct)
  case less
  show ?case
  proof (cases "j = start")
    case True
    with st have "walk_back (i2n ri) (pred ri) start j 0 = Some [s0]" by simp
    then show ?thesis by blast
  next
    case False
    with less.prems hops obtain k where k: "mat_get (pred ri) start j = Inr k"
      and ik: "i2n ri k \<noteq> None" and fk: "finite_entry ri start k" and hk: "hops k < hops j"
      by (cases "mat_get (pred ri) start j") (auto dest!: spec [of _ j])
    from less.hyps [OF hk ik fk] obtain m ns where
      w: "walk_back (i2n ri) (pred ri) start k m = Some ns" by blast
    from less.prems(1) obtain n where n: "i2n ri j = Some n" by blast
    from False n k w have "walk_back (i2n ri) (pred ri) start j (Suc m) = Some (n # ns)"
      by simp
    then show ?thesis by blast
  qed
qed

lemma predecessor_contract_walk:
  assumes "predecessor_contract ri start" and "i2n ri start \<noteq> None"
    and "i2n ri j \<noteq> None" and "finite_entry ri start j"
  shows "\<exists>k ns. walk_back (i2n ri) (pred ri) start j k = Some ns"
proof -
  from assms(1) obtain hops :: "int \<Rightarrow> nat" where
    h: "\<forall>j. j \<noteq> start \<and> i2n ri j \<noteq> None \<and> finite_entry ri start j \<longrightarrow>
          (case mat_get (pred ri) start j of
             Inl e \<Rightarrow> False
           | Inr k \<Rightarrow> i2n ri k \<noteq> None \<and> finite_entry ri start k \<and> hops k < hops j)"
    unfolding predecessor_contract_def by blast
  from assms(2) obtain s0 where "i2n ri start = Some s0" by blast
  from contract_walk [OF h this assms(3,4)] show ?thesis .
qed

lemma node_sequence_of_walk:
  assumes "n2i ri startNode = Some start" and "n2i ri endNode = Some end_i"
    and "mat_get (skim ri) start end_i = Inr cost" and "\<not> isinf cost"
    and w: "walk_back (i2n ri) (pred ri) start end_i k = Some ns"
  shows "getShortestPathNodeSequence ri startNode endNode = Some (Inr (map Some (rev ns)))"
proof -
  from walk_back_trace [OF w, of "[]"]
  have t: "trace_path (i2n ri) (pred ri) start end_i [] = Some (Inr (butlast ns))"
    and l: "i2n ri start = Some (last ns)" and ne: "ns \<noteq> []" by auto
  from ne have "butlast ns @ [last ns] = ns" by simp
  with assms(1-4) t l show ?thesis
    by (simp add: getShortestPathNodeSequence_def rev_map)
qed

lemma walk_of_node_sequence:
  assumes "n2i ri startNode = Some start" and "n2i ri endNode = Some end_i"
    and "mat_get (skim ri) start end_i = Inr cost" and "\<not> isinf cost"
    and r: "getShortestPathNodeSequence ri startNode endNode = Some (Inr nodeSeq)"
  shows "\<exists>k ns. walk_back (i2n ri) (pred ri) start end_i k = Some ns \<and>
                nodeSeq = map Some (rev ns)"
proof -
  from r assms(1-4) obtain q n where
    t: "trace_path (i2n ri) (pred ri) start end_i [] = Some (Inr q)"
    and n: "i2n ri start = Some n" and ns: "nodeSeq = rev (map Some (q @ [n]))"
    by (auto simp: getShortestPathNodeSequence_def split: option.splits sum.splits)
  from trace_walk_back_aux [OF t] n obtain k ms where "q = [] @ ms"
    and "walk_back (i2n ri) (pred ri) start end_i k = Some (ms @ [n])" by blast
  with ns show ?thesis
    by (intro exI [of _ k] exI [of _ "ms @ [n]"]) (simp add: rev_map)
qed

text \<open>
  C5, amended. For two nodes of the index whose entry of the skim matrix is infinite
  \<^verbatim>\<open>getShortestPathNodeSequence\<close> returns the list \<^verbatim>\<open>[None]\<close>. For a finite entry,
  and a predecessor matrix that meets its contract for the row \<open>start\<close> (with both
  indices carrying a node), the walk through that row backward from \<open>end\<close> arrives at
  \<open>start\<close> and the method returns the nodes of the walk reversed. Without the contract,
  the method returns a list exactly when the walk arrives, and the list is the walk
  reversed.
\<close>

theorem node_sequence_placeholder_or_reversed_walk:
  assumes "n2i ri startNode = Some start" and "n2i ri endNode = Some end_i"
    and "mat_get (skim ri) start end_i = Inr cost"
  shows "(isinf cost \<longrightarrow> getShortestPathNodeSequence ri startNode endNode = Some (Inr [None])) \<and>
         (\<not> isinf cost \<longrightarrow>
            (predecessor_contract ri start \<and> i2n ri start \<noteq> None \<and> i2n ri end_i \<noteq> None \<longrightarrow>
               (\<exists>k ns. walk_back (i2n ri) (pred ri) start end_i k = Some ns \<and>
                        getShortestPathNodeSequence ri startNode endNode =
                          Some (Inr (map Some (rev ns))))) \<and>
            (\<forall>nodeSeq.
               getShortestPathNodeSequence ri startNode endNode = Some (Inr nodeSeq) \<longleftrightarrow>
               (\<exists>k ns. walk_back (i2n ri) (pred ri) start end_i k = Some ns \<and>
                        nodeSeq = map Some (rev ns))))"
proof (intro conjI impI allI)
  assume "isinf cost"
  with assms show "getShortestPathNodeSequence ri startNode endNode = Some (Inr [None])"
    by (simp add: getShortestPathNodeSequence_def)
next
  assume fin: "\<not> isinf cost"
    and c: "predecessor_contract ri start \<and> i2n ri start \<noteq> None \<and> i2n ri end_i \<noteq> None"
  from assms(3) fin have "finite_entry ri start end_i" by (simp add: finite_entry_def)
  with c predecessor_contract_walk [of ri start end_i] obtain k ns where
    w: "walk_back (i2n ri) (pred ri) start end_i k = Some ns" by blast
  from node_sequence_of_walk [OF assms fin w] w
  show "\<exists>k ns. walk_back (i2n ri) (pred ri) start end_i k = Some ns \<and>
                getShortestPathNodeSequence ri startNode endNode = Some (Inr (map Some (rev ns)))"
    by blast
next
  fix nodeSeq
  assume fin: "\<not> isinf cost"
  show "getShortestPathNodeSequence ri startNode endNode = Some (Inr nodeSeq) \<longleftrightarrow>
        (\<exists>k ns. walk_back (i2n ri) (pred ri) start end_i k = Some ns \<and>
                 nodeSeq = map Some (rev ns))"
    using walk_of_node_sequence [OF assms fin] node_sequence_of_walk [OF assms fin] by blast
qed

lemma i2n_ri3: "i2n ri3 j \<noteq> None \<longleftrightarrow> j = 0 \<or> j = 1 \<or> j = 2"
  by (simp add: ri3_def)

lemma predecessor_contract3: "predecessor_contract ri3 0"
proof -
  have "\<forall>j. j \<noteq> 0 \<and> i2n ri3 j \<noteq> None \<and> finite_entry ri3 0 j \<longrightarrow>
          (case mat_get (pred ri3) 0 j of
             Inl e \<Rightarrow> False
           | Inr k \<Rightarrow> i2n ri3 k \<noteq> None \<and> finite_entry ri3 0 k \<and> nat k < nat j)"
  proof (intro allI impI)
    fix j :: int
    assume a: "j \<noteq> 0 \<and> i2n ri3 j \<noteq> None \<and> finite_entry ri3 0 j"
    with i2n_ri3 [of j] have "j = 1 \<or> j = 2" by blast
    then show "case mat_get (pred ri3) 0 j of
             Inl e \<Rightarrow> False
           | Inr k \<Rightarrow> i2n ri3 k \<noteq> None \<and> finite_entry ri3 0 k \<and> nat k < nat j"
      by (elim disjE)
         (simp_all add: ri3_def pred3_def skim3_def finite_entry_def mat_get_def get_item_def
           position_def isinf_def)
  qed
  then show ?thesis unfolding predecessor_contract_def by (intro exI [of _ nat])
qed

theorem node_sequence_placeholder_or_reversed_walk_witness:
  "n2i ri3 1 = Some 0 \<and> n2i ri3 3 = Some 2 \<and> mat_get (skim ri3) 0 2 = Inr (Finite 180) \<and>
   \<not> isinf (Finite 180) \<and> predecessor_contract ri3 0 \<and>
   i2n ri3 0 \<noteq> None \<and> i2n ri3 2 \<noteq> None \<and>
   walk_back (i2n ri3) (pred ri3) 0 2 (Suc (Suc 0)) = Some [3, 2, 1] \<and>
   getShortestPathNodeSequence ri3 1 3 = Some (Inr [Some 1, Some 2, Some 3]) \<and>
   mat_get (skim ri3) 2 0 = Inr PosInf \<and>
   isinf PosInf \<and> getShortestPathNodeSequence ri3 3 1 = Some (Inr [None])"
proof -
  have a: "n2i ri3 1 = Some 0" "n2i ri3 3 = Some 2" by (simp_all add: ri3_def)
  have b: "mat_get (skim ri3) 0 2 = Inr (Finite 180)" "mat_get (skim ri3) 2 0 = Inr PosInf"
    by (simp_all add: ri3_def skim3_def mat_get_def get_item_def position_def)
  have c: "\<not> isinf (Finite 180)" "isinf PosInf" by (simp_all add: isinf_def)
  have d: "i2n ri3 0 \<noteq> None" "i2n ri3 2 \<noteq> None" by (simp_all add: ri3_def)
  from node_sequence_placeholder_or_reversed_walk [OF a(1) a(2) b(1)] c(1) predecessor_contract3 d
  obtain k ns where "walk_back (i2n ri3) (pred ri3) 0 2 k = Some ns"
    and r: "getShortestPathNodeSequence ri3 1 3 = Some (Inr (map Some (rev ns)))" by blast
  from node_sequence_placeholder_or_reversed_walk [OF a(1) a(2) b(1)] c(1) wb3
  have "getShortestPathNodeSequence ri3 1 3 = Some (Inr (map Some (rev [3, 2, 1])))" by blast
  moreover from node_sequence_placeholder_or_reversed_walk [OF a(2) a(1) b(2)] c(2)
  have "getShortestPathNodeSequence ri3 3 1 = Some (Inr [None])" by blast
  ultimately show ?thesis using a b c d wb3 predecessor_contract3 by simp
qed

section \<open>Properties of the candidate path expansion\<close>

text \<open>\<^verbatim>\<open>getPaths\<close> returns a list of one entry whenever it returns a list.\<close>

lemma getPaths_singleton:
  "getPaths net ri s1 s2 = Some (Inr ps) \<Longrightarrow> \<exists>x. ps = [x]"
  by (auto simp: getPaths_def Let_def split: if_splits sum.splits option.splits)

lemma getPaths_unreachable:
  "link_id s1 \<noteq> link_id s2 \<Longrightarrow> getLinkForId net (link_id s1) = Inr l1 \<Longrightarrow>
   getLinkForId net (link_id s2) = Inr l2 \<Longrightarrow> n2i ri (getEndNodeId l1) = Some si \<Longrightarrow>
   n2i ri (getStartNodeId l2) = Some ei \<Longrightarrow> mat_get (skim ri) si ei = Inr c \<Longrightarrow> isinf c \<Longrightarrow>
   getPaths net ri s1 s2 = Some (Inr [None])"
  by (simp add: getPaths_def)

text \<open>
  One round of the inner loop appends one entry to each list for every state of the
  second collection; the outer loop does so for every state of the first.
\<close>

lemma inner_loop_result:
  "inner_loop net ri st1 i1 sc i2 (t1, ps, t2, n) = Some (Inr (t1', ps', t2', n')) \<Longrightarrow>
   \<exists>qs. length qs = length sc \<and> ps' = ps @ qs \<and> n' = n + length sc \<and>
        t1' = t1 @ map (\<lambda>k. (i1, n + k)) [0..<length sc] \<and>
        t2' = t2 @ map (\<lambda>k. (n + k, i2 + k)) [0..<length sc] \<and>
        (\<forall>k<length sc. getPaths net ri st1 (sc ! k) = Some (Inr [qs ! k]))"
proof (induction sc arbitrary: i2 t1 ps t2 n)
  case Nil
  then show ?case by simp
next
  case (Cons st2 rest)
  from Cons.prems obtain pl where gp: "getPaths net ri st1 st2 = Some (Inr pl)"
    and r: "inner_loop net ri st1 i1 rest (i2 + 1) (append_paths i1 i2 pl (t1, ps, t2, n)) =
              Some (Inr (t1', ps', t2', n'))"
    by (auto split: option.splits sum.splits)
  from getPaths_singleton [OF gp] obtain x where pl: "pl = [x]" ..
  from r pl have r': "inner_loop net ri st1 i1 rest (i2 + 1)
      (t1 @ [(i1, n)], ps @ [x], t2 @ [(n, i2)], n + 1) = Some (Inr (t1', ps', t2', n'))"
    by simp
  from Cons.IH [OF r'] obtain qs where qs: "length qs = length rest"
    "ps' = (ps @ [x]) @ qs" "n' = n + 1 + length rest"
    "t1' = (t1 @ [(i1, n)]) @ map (\<lambda>k. (i1, n + 1 + k)) [0..<length rest]"
    "t2' = (t2 @ [(n, i2)]) @ map (\<lambda>k. (n + 1 + k, i2 + 1 + k)) [0..<length rest]"
    "\<forall>k<length rest. getPaths net ri st1 (rest ! k) = Some (Inr [qs ! k])"
    by blast
  have "\<forall>k<length (st2 # rest). getPaths net ri st1 ((st2 # rest) ! k) = Some (Inr [(x # qs) ! k])"
    using qs(6) gp pl by (auto simp: nth_Cons split: nat.splits)
  with qs(1-5) show ?case
    by (intro exI [of _ "x # qs"]) (simp add: map_upt_Suc del: upt_Suc)
qed

lemma outer_loop_result:
  "outer_loop net ri rest i1 sc2 (t1, ps, t2, n) = Some (Inr (t1', ps', t2', n')) \<Longrightarrow>
   length t1 = n \<Longrightarrow> length ps = n \<Longrightarrow> length t2 = n \<Longrightarrow>
   n' = n + length rest * length sc2 \<and> length t1' = n' \<and> length ps' = n' \<and> length t2' = n' \<and>
   (\<forall>k<n. t1' ! k = t1 ! k \<and> ps' ! k = ps ! k \<and> t2' ! k = t2 ! k) \<and>
   (\<forall>a<length rest. \<forall>b<length sc2.
      getPaths net ri (rest ! a) (sc2 ! b) = Some (Inr [ps' ! (n + a * length sc2 + b)]) \<and>
      t1' ! (n + a * length sc2 + b) = (i1 + a, n + a * length sc2 + b) \<and>
      t2' ! (n + a * length sc2 + b) = (n + a * length sc2 + b, b))"
proof (induction rest arbitrary: i1 t1 ps t2 n)
  case Nil
  then show ?case by simp
next
  case (Cons st1 rest)
  let ?L = "length sc2"
  from Cons.prems(1) obtain acc where
    inn: "inner_loop net ri st1 i1 sc2 0 (t1, ps, t2, n) = Some (Inr acc)"
    and out: "outer_loop net ri rest (i1 + 1) sc2 acc = Some (Inr (t1', ps', t2', n'))"
    by (auto split: option.splits sum.splits)
  obtain u1 qs1 u2 m where acc: "acc = (u1, qs1, u2, m)" by (cases acc)
  from inner_loop_result [OF inn [unfolded acc]] obtain qs where qs: "length qs = ?L"
    "qs1 = ps @ qs" "m = n + ?L"
    "u1 = t1 @ map (\<lambda>k. (i1, n + k)) [0..<?L]"
    "u2 = t2 @ map (\<lambda>k. (n + k, 0 + k)) [0..<?L]"
    "\<forall>k<?L. getPaths net ri st1 (sc2 ! k) = Some (Inr [qs ! k])"
    by blast
  have len: "length u1 = m" "length qs1 = m" "length u2 = m"
    using qs Cons.prems by simp_all
  from Cons.IH [OF out [unfolded acc] len]
  have ih: "n' = m + length rest * ?L" "length t1' = n'" "length ps' = n'" "length t2' = n'"
    "\<forall>k<m. t1' ! k = u1 ! k \<and> ps' ! k = qs1 ! k \<and> t2' ! k = u2 ! k"
    "\<forall>a<length rest. \<forall>b<?L.
      getPaths net ri (rest ! a) (sc2 ! b) = Some (Inr [ps' ! (m + a * ?L + b)]) \<and>
      t1' ! (m + a * ?L + b) = (i1 + 1 + a, m + a * ?L + b) \<and>
      t2' ! (m + a * ?L + b) = (m + a * ?L + b, b)"
    by blast+
  have pre: "\<forall>k<n. t1' ! k = t1 ! k \<and> ps' ! k = ps ! k \<and> t2' ! k = t2 ! k"
    using ih(5) qs(2-5) Cons.prems(2-4) by (simp add: nth_append)
  have ent: "getPaths net ri ((st1 # rest) ! a) (sc2 ! b) =
        Some (Inr [ps' ! (n + a * ?L + b)]) \<and>
      t1' ! (n + a * ?L + b) = (i1 + a, n + a * ?L + b) \<and>
      t2' ! (n + a * ?L + b) = (n + a * ?L + b, b)"
    if a: "a < length (st1 # rest)" and b: "b < ?L" for a b
  proof (cases a)
    case 0
    from b qs(3) have "n + b < m" by simp
    with ih(5) have "t1' ! (n + b) = u1 ! (n + b)" "ps' ! (n + b) = qs1 ! (n + b)"
      "t2' ! (n + b) = u2 ! (n + b)" by blast+
    with qs b Cons.prems(2-4) 0 show ?thesis by (simp add: nth_append)
  next
    case (Suc a')
    with a have "a' < length rest" by simp
    with ih(6) b have
      "getPaths net ri (rest ! a') (sc2 ! b) = Some (Inr [ps' ! (m + a' * ?L + b)]) \<and>
       t1' ! (m + a' * ?L + b) = (i1 + 1 + a', m + a' * ?L + b) \<and>
       t2' ! (m + a' * ?L + b) = (m + a' * ?L + b, b)" by blast
    moreover have "m + a' * ?L + b = n + a * ?L + b" using Suc qs(3) by simp
    ultimately show ?thesis using Suc by simp
  qed
  from ih(1-4) qs(3) pre ent show ?case by simp
qed

text \<open>
  C2, as stated, fails. From the state on link 20 to the state on link 10 of the example
  there is no path, and the result holds one entry \<^verbatim>\<open>None\<close> in \<open>paths\<close> and one
  transition tuple in each of \<open>trans1\<close> and \<open>trans2\<close>.
\<close>

theorem unreachable_pair_appended:
  "getPathsBetweenCollections net3 ri3 [state2] [state1] = Some (Inr ([(0, 0)], [None], [(0, 0)]))"
  by (simp add: getPathsBetweenCollections_def getPaths_def ri3_def skim3_def mat_get_def
      get_item_def position_def isinf_def getLinkForId_def net3_def state1_def state2_def)

text \<open>
  The result of the two loops, whenever they return: every pair of states owns one
  position of the three lists.
\<close>

lemma collections_result:
  assumes "getPathsBetweenCollections net ri sc1 sc2 = Some (Inr (trans1, paths, trans2))"
  shows "length paths = length sc1 * length sc2 \<and>
         length trans1 = length sc1 * length sc2 \<and>
         length trans2 = length sc1 * length sc2 \<and>
         (\<forall>i1<length sc1. \<forall>i2<length sc2.
            getPaths net ri (sc1 ! i1) (sc2 ! i2) =
              Some (Inr [paths ! (i1 * length sc2 + i2)]) \<and>
            trans1 ! (i1 * length sc2 + i2) = (i1, i1 * length sc2 + i2) \<and>
            trans2 ! (i1 * length sc2 + i2) = (i1 * length sc2 + i2, i2) \<and>
            (\<forall>l1 l2 si ei c.
               link_id (sc1 ! i1) \<noteq> link_id (sc2 ! i2) \<and>
               getLinkForId net (link_id (sc1 ! i1)) = Inr l1 \<and>
               getLinkForId net (link_id (sc2 ! i2)) = Inr l2 \<and>
               n2i ri (getEndNodeId l1) = Some si \<and> n2i ri (getStartNodeId l2) = Some ei \<and>
               mat_get (skim ri) si ei = Inr c \<and> isinf c \<longrightarrow>
               paths ! (i1 * length sc2 + i2) = None))"
proof -
  from assms obtain n' where
    "outer_loop net ri sc1 0 sc2 ([], [], [], 0) = Some (Inr (trans1, paths, trans2, n'))"
    by (auto simp: getPathsBetweenCollections_def split: option.splits sum.splits)
  from outer_loop_result [OF this]
  have r: "length trans1 = n'" "length paths = n'" "length trans2 = n'"
    "n' = length sc1 * length sc2"
    "\<forall>a<length sc1. \<forall>b<length sc2.
      getPaths net ri (sc1 ! a) (sc2 ! b) = Some (Inr [paths ! (a * length sc2 + b)]) \<and>
      trans1 ! (a * length sc2 + b) = (a, a * length sc2 + b) \<and>
      trans2 ! (a * length sc2 + b) = (a * length sc2 + b, b)"
    by simp_all
  have "paths ! (i1 * length sc2 + i2) = None"
    if "i1 < length sc1" "i2 < length sc2" "link_id (sc1 ! i1) \<noteq> link_id (sc2 ! i2)"
      "getLinkForId net (link_id (sc1 ! i1)) = Inr l1"
      "getLinkForId net (link_id (sc2 ! i2)) = Inr l2"
      "n2i ri (getEndNodeId l1) = Some si" "n2i ri (getStartNodeId l2) = Some ei"
      "mat_get (skim ri) si ei = Inr c" "isinf c" for i1 i2 l1 l2 si ei c
  proof -
    from getPaths_unreachable [OF that(3-9)]
    have "getPaths net ri (sc1 ! i1) (sc2 ! i2) = Some (Inr [None])" .
    moreover from r(5) that(1,2)
    have "getPaths net ri (sc1 ! i1) (sc2 ! i2) = Some (Inr [paths ! (i1 * length sc2 + i2)])"
      by blast
    ultimately show ?thesis by simp
  qed
  note unr = this
  from r have lens: "length paths = length sc1 * length sc2"
    "length trans1 = length sc1 * length sc2" "length trans2 = length sc1 * length sc2"
    by simp_all
  show ?thesis
    by (intro conjI allI impI) (use lens r(5) unr in \<open>blast+\<close>)
qed

text \<open>
  The two loops run over the states of the collections and return whenever every call
  of \<^verbatim>\<open>getPaths\<close> does, which it does on a pair that can be resolved.
\<close>

lemma resolvable_returns:
  assumes "resolvable net ri s1 s2"
  shows "\<exists>x. getPaths net ri s1 s2 = Some (Inr [x])"
proof (cases "link_id s1 = link_id s2")
  case True
  then show ?thesis by (simp add: getPaths_def)
next
  case False
  with assms obtain l1 l2 si ei c where
    l: "getLinkForId net (link_id s1) = Inr l1" "getLinkForId net (link_id s2) = Inr l2"
    and n: "n2i ri (getEndNodeId l1) = Some si" "n2i ri (getStartNodeId l2) = Some ei"
    and c: "mat_get (skim ri) si ei = Inr c"
    and d: "isinf c \<or>
         (\<exists>k ns. walk_back (i2n ri) (pred ri) si ei k = Some ns \<and>
                  \<not> isl (links_between net (map Some (rev ns)) [link_id s1]))"
    unfolding resolvable_def by blast
  show ?thesis
  proof (cases "isinf c")
    case True
    with False l n c show ?thesis by (simp add: getPaths_def)
  next
    case fin: False
    with d obtain k ns where w: "walk_back (i2n ri) (pred ri) si ei k = Some ns"
      and lb: "\<not> isl (links_between net (map Some (rev ns)) [link_id s1])" by blast
    from node_sequence_of_walk [OF n c fin w]
    have ns: "getShortestPathNodeSequence ri (getEndNodeId l1) (getStartNodeId l2) =
      Some (Inr (map Some (rev ns)))" .
    from lb obtain linkSeq where
      "links_between net (map Some (rev ns)) [link_id s1] = Inr linkSeq"
      by (cases "links_between net (map Some (rev ns)) [link_id s1]") simp_all
    with False l n c fin ns show ?thesis by (simp add: getPaths_def)
  qed
qed

lemma inner_loop_returns:
  "\<forall>s2 \<in> set sc. \<exists>x. getPaths net ri st1 s2 = Some (Inr [x]) \<Longrightarrow>
   \<exists>r. inner_loop net ri st1 i1 sc i2 acc = Some (Inr r)"
proof (induction sc arbitrary: i2 acc)
  case Nil
  show ?case by (cases acc) simp
next
  case (Cons s2 sc)
  from Cons.prems obtain x where x: "getPaths net ri st1 s2 = Some (Inr [x])" by auto
  from Cons.prems have "\<forall>s2 \<in> set sc. \<exists>x. getPaths net ri st1 s2 = Some (Inr [x])" by simp
  from Cons.IH [OF this, of "i2 + 1" "append_paths i1 i2 [x] acc"] x show ?case by simp
qed

lemma outer_loop_returns:
  "\<forall>s1 \<in> set sc1. \<forall>s2 \<in> set sc2. \<exists>x. getPaths net ri s1 s2 = Some (Inr [x]) \<Longrightarrow>
   \<exists>r. outer_loop net ri sc1 i1 sc2 acc = Some (Inr r)"
proof (induction sc1 arbitrary: i1 acc)
  case Nil
  show ?case by (cases acc) simp
next
  case (Cons s1 sc1)
  from Cons.prems have "\<forall>s2 \<in> set sc2. \<exists>x. getPaths net ri s1 s2 = Some (Inr [x])" by simp
  from inner_loop_returns [OF this, of i1 0 acc] obtain acc' where
    i: "inner_loop net ri s1 i1 sc2 0 acc = Some (Inr acc')" by blast
  from Cons.prems
  have "\<forall>s1 \<in> set sc1. \<forall>s2 \<in> set sc2. \<exists>x. getPaths net ri s1 s2 = Some (Inr [x])" by simp
  from Cons.IH [OF this, of "i1 + 1" acc'] i show ?case by simp
qed

lemma collections_return:
  assumes "\<forall>s1 \<in> set sc1. \<forall>s2 \<in> set sc2. resolvable net ri s1 s2"
  shows "\<exists>trans1 paths trans2.
           getPathsBetweenCollections net ri sc1 sc2 = Some (Inr (trans1, paths, trans2))"
proof -
  from assms have "\<forall>s1 \<in> set sc1. \<forall>s2 \<in> set sc2. \<exists>x. getPaths net ri s1 s2 = Some (Inr [x])"
    using resolvable_returns by blast
  from outer_loop_returns [OF this, of 0 "([], [], [], 0)"] obtain r where
    "outer_loop net ri sc1 0 sc2 ([], [], [], 0) = Some (Inr r)" by blast
  then show ?thesis by (cases r) (simp add: getPathsBetweenCollections_def)
qed

text \<open>
  C2, amended. On two collections whose pairs of states can all be resolved,
  \<^verbatim>\<open>getPathsBetweenCollections\<close> returns, and every pair, with or without a path
  between its states, has added exactly one entry to \<open>paths\<close>, \<open>trans1\<close> and \<open>trans2\<close>:
  the pair \<open>(i1, i2)\<close> owns position \<open>k = i1 * n2 + i2\<close>, where \<open>paths\<close> holds the one
  entry \<^verbatim>\<open>getPaths\<close> returned for it, \<open>trans1\<close> holds \<open>(i1, k)\<close> and \<open>trans2\<close> holds
  \<open>(k, i2)\<close>. For a pair whose skim entry is infinite the entry of \<open>paths\<close> is
  \<^verbatim>\<open>None\<close>.
\<close>

theorem every_pair_contributes_one_entry:
  assumes "\<forall>s1 \<in> set sc1. \<forall>s2 \<in> set sc2. resolvable net ri s1 s2"
  shows "\<exists>trans1 paths trans2.
         getPathsBetweenCollections net ri sc1 sc2 = Some (Inr (trans1, paths, trans2)) \<and>
         length paths = length sc1 * length sc2 \<and>
         length trans1 = length sc1 * length sc2 \<and>
         length trans2 = length sc1 * length sc2 \<and>
         (\<forall>i1<length sc1. \<forall>i2<length sc2.
            getPaths net ri (sc1 ! i1) (sc2 ! i2) =
              Some (Inr [paths ! (i1 * length sc2 + i2)]) \<and>
            trans1 ! (i1 * length sc2 + i2) = (i1, i1 * length sc2 + i2) \<and>
            trans2 ! (i1 * length sc2 + i2) = (i1 * length sc2 + i2, i2) \<and>
            (\<forall>l1 l2 si ei c.
               link_id (sc1 ! i1) \<noteq> link_id (sc2 ! i2) \<and>
               getLinkForId net (link_id (sc1 ! i1)) = Inr l1 \<and>
               getLinkForId net (link_id (sc2 ! i2)) = Inr l2 \<and>
               n2i ri (getEndNodeId l1) = Some si \<and> n2i ri (getStartNodeId l2) = Some ei \<and>
               mat_get (skim ri) si ei = Inr c \<and> isinf c \<longrightarrow>
               paths ! (i1 * length sc2 + i2) = None))"
proof -
  from collections_return [OF assms] obtain trans1 paths trans2 where
    r: "getPathsBetweenCollections net ri sc1 sc2 = Some (Inr (trans1, paths, trans2))"
    by blast
  from collections_result [OF r] r show ?thesis by blast
qed

lemma gp21: "getPaths net3 ri3 state2 state1 = Some (Inr [None])"
  by (simp add: getPaths_def ri3_def skim3_def mat_get_def
      get_item_def position_def isinf_def getLinkForId_def net3_def state1_def state2_def)

lemma gp12: "getPaths net3 ri3 state1 state2 = Some (Inr [Some (Path state1 [10, 20] state2)])"
  by (simp add: getPaths_def getShortestPathNodeSequence_def trace_path.simps ri3_def skim3_def
      pred3_def mat_get_def get_item_def position_def isinf_def getLinkForId_def
      getLinkForNodeIdPair_def net3_def state1_def state2_def)

lemma gp11: "getPaths net3 ri3 state1 state1 = Some (Inr [Some (Path state1 [10] state1)])"
  by (simp add: getPaths_def state1_def)

lemma gp22: "getPaths net3 ri3 state2 state2 = Some (Inr [Some (Path state2 [20] state2)])"
  by (simp add: getPaths_def state2_def)

lemma gpbc3:
  "getPathsBetweenCollections net3 ri3 [state1, state2] [state1, state2] =
     Some (Inr ([(0, 0), (0, 1), (1, 2), (1, 3)],
                [Some (Path state1 [10] state1), Some (Path state1 [10, 20] state2), None,
                 Some (Path state2 [20] state2)],
                [(0, 0), (1, 1), (2, 0), (3, 1)]))"
  by (simp add: getPathsBetweenCollections_def gp11 gp12 gp21 gp22)

lemma resolvable3:
  "resolvable net3 ri3 state1 state1" "resolvable net3 ri3 state1 state2"
  "resolvable net3 ri3 state2 state1" "resolvable net3 ri3 state2 state2"
proof -
  let ?l10 = "\<lparr>getId = 10, getStartNodeId = 1, getEndNodeId = 2,
               getFreeFlowTTInMin = 1, getLengthInCoordinateUnits = 100\<rparr>"
  let ?l20 = "\<lparr>getId = 20, getStartNodeId = 2, getEndNodeId = 3,
               getFreeFlowTTInMin = 2, getLengthInCoordinateUnits = 200\<rparr>"
  show "resolvable net3 ri3 state1 state1" "resolvable net3 ri3 state2 state2"
    by (simp_all add: resolvable_def)
  have l: "getLinkForId net3 (link_id state1) = Inr ?l10"
    "getLinkForId net3 (link_id state2) = Inr ?l20"
    by (simp_all add: getLinkForId_def net3_def state1_def state2_def)
  have n: "n2i ri3 (getEndNodeId ?l10) = Some 1" "n2i ri3 (getStartNodeId ?l20) = Some 1"
    "n2i ri3 (getEndNodeId ?l20) = Some 2" "n2i ri3 (getStartNodeId ?l10) = Some 0"
    by (simp_all add: ri3_def)
  have m: "mat_get (skim ri3) 1 1 = Inr (Finite 0)" "mat_get (skim ri3) 2 0 = Inr PosInf"
    by (simp_all add: ri3_def skim3_def mat_get_def get_item_def position_def)
  have w: "walk_back (i2n ri3) (pred ri3) 1 1 0 = Some [2]" by (simp add: ri3_def)
  have lb: "\<not> isl (links_between net3 (map Some (rev [2])) [link_id state1])" by simp
  from w lb have d1: "isinf (Finite 0) \<or>
      (\<exists>k ns. walk_back (i2n ri3) (pred ri3) 1 1 k = Some ns \<and>
               \<not> isl (links_between net3 (map Some (rev ns)) [link_id state1]))"
    by blast
  have d2: "isinf PosInf \<or>
      (\<exists>k ns. walk_back (i2n ri3) (pred ri3) 2 0 k = Some ns \<and>
               \<not> isl (links_between net3 (map Some (rev ns)) [link_id state2]))"
    by (simp add: isinf_def)
  show "resolvable net3 ri3 state1 state2"
    unfolding resolvable_def
    by (rule disjI2, rule exI [of _ ?l10], rule exI [of _ ?l20], rule exI [of _ 1],
        rule exI [of _ 1], rule exI [of _ "Finite 0"])
       (intro conjI l n(1) n(2) m(1) d1)
  show "resolvable net3 ri3 state2 state1"
    unfolding resolvable_def
    by (rule disjI2, rule exI [of _ ?l20], rule exI [of _ ?l10], rule exI [of _ 2],
        rule exI [of _ 0], rule exI [of _ PosInf])
       (intro conjI l n(3) n(4) m(2) d2)
qed

theorem every_pair_contributes_one_entry_witness:
  "resolvable net3 ri3 state1 state1 \<and> resolvable net3 ri3 state1 state2 \<and>
   resolvable net3 ri3 state2 state1 \<and> resolvable net3 ri3 state2 state2 \<and>
   getPathsBetweenCollections net3 ri3 [state1, state2] [state1, state2] =
     Some (Inr ([(0, 0), (0, 1), (1, 2), (1, 3)],
                [Some (Path state1 [10] state1), Some (Path state1 [10, 20] state2), None,
                 Some (Path state2 [20] state2)],
                [(0, 0), (1, 1), (2, 0), (3, 1)])) \<and>
   getPaths net3 ri3 ([state1, state2] ! 1) ([state1, state2] ! 0) = Some (Inr [None])"
proof -
  have "\<forall>s1 \<in> set [state1, state2]. \<forall>s2 \<in> set [state1, state2]. resolvable net3 ri3 s1 s2"
    using resolvable3 by simp
  from every_pair_contributes_one_entry [OF this] gpbc3 gp21 resolvable3
  show ?thesis by simp
qed

section \<open>Properties of the routing index\<close>

text \<open>
  The loop over the nodes: the counter advances by one per node, the index-to-node
  dictionary receives the positions \<open>i\<close> to \<open>i + N - 1\<close>, and the node-to-index
  dictionary receives the nodes, with values in the same range.
\<close>

lemma index_nodes_counter:
  "snd (snd (index_nodes ns m1 m2 i)) = i + int (length ns)"
  by (induction ns arbitrary: m1 m2 i) auto

lemma index_nodes_i2n:
  "fst (snd (index_nodes ns m1 m2 i)) j =
     (if i \<le> j \<and> j < i + int (length ns) then Some (ns ! nat (j - i)) else m2 j)"
proof (induction ns arbitrary: m1 m2 i)
  case Nil
  then show ?case by auto
next
  case (Cons x xs)
  have ih: "fst (snd (index_nodes xs (m1(x \<mapsto> i)) (m2(i \<mapsto> x)) (i + 1))) j =
     (if i + 1 \<le> j \<and> j < i + 1 + int (length xs) then Some (xs ! nat (j - (i + 1)))
      else (m2(i \<mapsto> x)) j)"
    by (rule Cons.IH)
  show ?case
  proof (cases "j = i")
    case True
    show ?thesis unfolding index_nodes.simps ih using True by simp
  next
    case False
    then have "i + 1 \<le> j \<Longrightarrow> nat (j - i) = Suc (nat (j - (i + 1)))" by simp
    then show ?thesis unfolding index_nodes.simps ih using False by auto
  qed
qed

lemma index_nodes_n2i_other:
  "x \<notin> set ns \<Longrightarrow> fst (index_nodes ns m1 m2 i) x = m1 x"
  by (induction ns arbitrary: m1 m2 i) auto

lemma index_nodes_n2i_distinct:
  "distinct ns \<Longrightarrow> k < length ns \<Longrightarrow> fst (index_nodes ns m1 m2 i) (ns ! k) = Some (i + int k)"
proof (induction ns arbitrary: m1 m2 i k)
  case Nil
  then show ?case by simp
next
  case (Cons x xs)
  show ?case
  proof (cases k)
    case 0
    with Cons.prems show ?thesis by (simp add: index_nodes_n2i_other)
  next
    case (Suc k')
    with Cons.prems have "fst (index_nodes xs (m1(x \<mapsto> i)) (m2(i \<mapsto> x)) (i + 1)) (xs ! k') =
      Some (i + 1 + int k')" by (intro Cons.IH) simp_all
    with Suc show ?thesis by simp
  qed
qed

lemma index_nodes_n2i_range:
  "fst (index_nodes ns m1 m2 i) x = Some v \<Longrightarrow>
   m1 x = Some v \<or> (i \<le> v \<and> v < i + int (length ns))"
proof (induction ns arbitrary: m1 m2 i)
  case Nil
  then show ?case by simp
next
  case (Cons y ys)
  from Cons.prems have "fst (index_nodes ys (m1(y \<mapsto> i)) (m2(i \<mapsto> y)) (i + 1)) x = Some v"
    by simp
  from Cons.IH [OF this] show ?case by (auto split: if_splits)
qed

lemma index_nodes_n2i_dom:
  "dom (fst (index_nodes ns m1 m2 i)) = dom m1 \<union> set ns"
  by (induction ns arbitrary: m1 m2 i) auto

text \<open>
  The loop over the links: the indices it collects are values of the dictionary, and
  it raises \<^verbatim>\<open>KeyError\<close> exactly when a link's start or end node is not a key.
\<close>

lemma collect_links_ok:
  "collect_links m ls as bs cs = Inr (as', bs', cs') \<Longrightarrow>
   set as' \<subseteq> set as \<union> ran m \<and> set bs' \<subseteq> set bs \<union> ran m"
proof (induction ls arbitrary: as bs cs)
  case Nil
  then show ?case by auto
next
  case (Cons l ls)
  from Cons.prems obtain a b where a: "m (getStartNodeId l) = Some a"
    and b: "m (getEndNodeId l) = Some b"
    and r: "collect_links m ls (as @ [a]) (bs @ [b]) (cs @ [60 * getFreeFlowTTInMin l]) =
       Inr (as', bs', cs')"
    by (auto split: option.splits)
  from a b have "a \<in> ran m" "b \<in> ran m" by (auto simp: ran_def)
  with Cons.IH [OF r] show ?case by auto
qed

lemma collect_links_raises:
  "\<exists>l \<in> set ls. getStartNodeId l \<notin> dom m \<or> getEndNodeId l \<notin> dom m \<Longrightarrow>
   collect_links m ls as bs cs = Inl KeyError"
proof (induction ls arbitrary: as bs cs)
  case Nil
  then show ?case by simp
next
  case (Cons l ls)
  show ?case
  proof (cases "getStartNodeId l \<in> dom m \<and> getEndNodeId l \<in> dom m")
    case True
    then obtain a b where ab: "m (getStartNodeId l) = Some a" "m (getEndNodeId l) = Some b"
      by auto
    from True Cons.prems
    have "\<exists>l \<in> set ls. getStartNodeId l \<notin> dom m \<or> getEndNodeId l \<notin> dom m" by auto
    from Cons.IH [OF this] ab show ?thesis by simp
  next
    case False
    then show ?thesis by (auto split: option.splits)
  qed
qed

lemma collect_links_returns:
  "\<forall>l \<in> set ls. getStartNodeId l \<in> dom m \<and> getEndNodeId l \<in> dom m \<Longrightarrow>
   \<exists>as' bs' cs'. collect_links m ls as bs cs = Inr (as', bs', cs') \<and>
      length as' = length as + length ls \<and> length bs' = length bs + length ls \<and>
      length cs' = length cs + length ls"
proof (induction ls arbitrary: as bs cs)
  case Nil
  then show ?case by simp
next
  case (Cons l ls)
  then obtain a b where ab: "m (getStartNodeId l) = Some a" "m (getEndNodeId l) = Some b"
    by auto
  from Cons.prems have "\<forall>l \<in> set ls. getStartNodeId l \<in> dom m \<and> getEndNodeId l \<in> dom m"
    by simp
  from Cons.IH [OF this, of "as @ [a]" "bs @ [b]" "cs @ [60 * getFreeFlowTTInMin l]"] ab
  show ?case by auto
qed

lemma build_graph_parts:
  assumes "build_graph net = Inr (n2, i2, g)"
  shows "n2 = fst (index_nodes (iterNodes net) Map.empty Map.empty 0)"
    and "i2 = fst (snd (index_nodes (iterNodes net) Map.empty Map.empty 0))"
    and "shape g = (int (length (iterNodes net)) + 1, int (length (iterNodes net)) + 1)"
    and "set (row_ind g) \<subseteq> ran n2" and "set (col_ind g) \<subseteq> ran n2"
proof -
  obtain m1 m2 i where ix: "index_nodes (iterNodes net) Map.empty Map.empty 0 = (m1, m2, i)"
    by (cases "index_nodes (iterNodes net) Map.empty Map.empty 0")
  from index_nodes_counter [of "iterNodes net" Map.empty Map.empty 0] ix
  have i: "i = int (length (iterNodes net))" by simp
  from assms ix obtain as bs cs where
    cl: "collect_links m1 (iterRoadLinks net) [] [] [] = Inr (as, bs, cs)"
    and n2: "n2 = m1" and i2: "i2 = m2"
    and g: "g = \<lparr>data = cs, row_ind = as, col_ind = bs, shape = (i + 1, i + 1)\<rparr>"
    by (auto simp: build_graph_def Let_def split: sum.splits)
  from n2 ix show "n2 = fst (index_nodes (iterNodes net) Map.empty Map.empty 0)" by simp
  from i2 ix show "i2 = fst (snd (index_nodes (iterNodes net) Map.empty Map.empty 0))" by simp
  from g i show "shape g = (int (length (iterNodes net)) + 1, int (length (iterNodes net)) + 1)"
    by simp
  from collect_links_ok [OF cl] g n2 show "set (row_ind g) \<subseteq> ran n2" "set (col_ind g) \<subseteq> ran n2"
    by simp_all
qed

lemma build_graph_raises:
  assumes "\<exists>l \<in> set (iterRoadLinks net).
            getStartNodeId l \<notin> set (iterNodes net) \<or> getEndNodeId l \<notin> set (iterNodes net)"
  shows "build_graph net = Inl KeyError"
proof -
  obtain m1 m2 i where ix: "index_nodes (iterNodes net) Map.empty Map.empty 0 = (m1, m2, i)"
    by (cases "index_nodes (iterNodes net) Map.empty Map.empty 0")
  from index_nodes_n2i_dom [of "iterNodes net" Map.empty Map.empty 0] ix
  have d: "dom m1 = set (iterNodes net)" by simp
  with assms have "\<exists>l \<in> set (iterRoadLinks net).
      getStartNodeId l \<notin> dom m1 \<or> getEndNodeId l \<notin> dom m1" by simp
  from collect_links_raises [OF this] ix show ?thesis
    by (simp add: build_graph_def Let_def)
qed

lemma build_graph_returns:
  assumes "\<forall>l \<in> set (iterRoadLinks net).
            getStartNodeId l \<in> set (iterNodes net) \<and> getEndNodeId l \<in> set (iterNodes net)"
  shows "\<exists>n2 i2 g. build_graph net = Inr (n2, i2, g) \<and>
           shape g = (int (length (iterNodes net)) + 1, int (length (iterNodes net)) + 1) \<and>
           length (data g) = length (iterRoadLinks net) \<and>
           length (row_ind g) = length (iterRoadLinks net) \<and>
           length (col_ind g) = length (iterRoadLinks net)"
proof -
  obtain m1 m2 i where ix: "index_nodes (iterNodes net) Map.empty Map.empty 0 = (m1, m2, i)"
    by (cases "index_nodes (iterNodes net) Map.empty Map.empty 0")
  from index_nodes_n2i_dom [of "iterNodes net" Map.empty Map.empty 0] ix
  have d: "dom m1 = set (iterNodes net)" by simp
  from index_nodes_counter [of "iterNodes net" Map.empty Map.empty 0] ix
  have i: "i = int (length (iterNodes net))" by simp
  from assms d have "\<forall>l \<in> set (iterRoadLinks net).
      getStartNodeId l \<in> dom m1 \<and> getEndNodeId l \<in> dom m1" by simp
  from collect_links_returns [OF this, of "[]" "[]" "[]"] obtain as bs cs where
    "collect_links m1 (iterRoadLinks net) [] [] [] = Inr (as, bs, cs)"
    "length as = length (iterRoadLinks net)" "length bs = length (iterRoadLinks net)"
    "length cs = length (iterRoadLinks net)" by auto
  with ix i show ?thesis by (simp add: build_graph_def Let_def)
qed

lemma init_parts:
  assumes "initializeShortestPaths sp net = Inr ri"
  shows "\<exists>g. build_graph net = Inr (n2i ri, i2n ri, g) \<and> skim ri = fst (sp g) \<and> pred ri = snd (sp g)"
  using assms
  by (auto simp: initializeShortestPaths_def split: sum.splits prod.splits)

text \<open>
  C6, as stated, fails. On the network without nodes and links the initialization
  raises nothing and stores the matrices computed for the graph of one index.
\<close>

theorem empty_network_initializes:
  "iterNodes net_empty = [] \<and> iterRoadLinks net_empty = [] \<and>
   \<not> isl (initializeShortestPaths shortest_path_empty net_empty) \<and>
   map_sum id skim (initializeShortestPaths shortest_path_empty net_empty) = Inr [[Finite 0]]"
  by (simp add: initializeShortestPaths_def build_graph_def net_empty_def shortest_path_empty_def)

text \<open>
  C6, amended. \<^verbatim>\<open>initializeShortestPaths\<close> checks neither the number of nodes nor the
  number of links. When the start and end node of every link are among the \<open>N\<close> nodes,
  as they are on any network without links, it succeeds, handing the shortest path
  routine a graph of shape \<open>(N+1) x (N+1)\<close> with one entry for each link. When some link
  names a start or end node that is not among the nodes, as every link does on a
  network without nodes, it raises \<^verbatim>\<open>KeyError\<close>.
\<close>

theorem initialization_without_emptiness_check:
  "((\<forall>l \<in> set (iterRoadLinks net).
       getStartNodeId l \<in> set (iterNodes net) \<and> getEndNodeId l \<in> set (iterNodes net)) \<longrightarrow>
      (\<exists>n2 i2 g. build_graph net = Inr (n2, i2, g) \<and>
         shape g = (int (length (iterNodes net)) + 1, int (length (iterNodes net)) + 1) \<and>
         length (data g) = length (iterRoadLinks net) \<and>
         initializeShortestPaths sp net =
           Inr \<lparr>n2i = n2, i2n = i2, skim = fst (sp g), pred = snd (sp g)\<rparr>)) \<and>
   ((\<exists>l \<in> set (iterRoadLinks net).
       getStartNodeId l \<notin> set (iterNodes net) \<or> getEndNodeId l \<notin> set (iterNodes net)) \<longrightarrow>
      initializeShortestPaths sp net = Inl KeyError) \<and>
   (iterRoadLinks net = [] \<longrightarrow> \<not> isl (initializeShortestPaths sp net)) \<and>
   (iterNodes net = [] \<and> iterRoadLinks net \<noteq> [] \<longrightarrow>
      initializeShortestPaths sp net = Inl KeyError)"
proof -
  have ok: "\<exists>n2 i2 g. build_graph net = Inr (n2, i2, g) \<and>
         shape g = (int (length (iterNodes net)) + 1, int (length (iterNodes net)) + 1) \<and>
         length (data g) = length (iterRoadLinks net) \<and>
         initializeShortestPaths sp net =
           Inr \<lparr>n2i = n2, i2n = i2, skim = fst (sp g), pred = snd (sp g)\<rparr>"
    if "\<forall>l \<in> set (iterRoadLinks net).
       getStartNodeId l \<in> set (iterNodes net) \<and> getEndNodeId l \<in> set (iterNodes net)"
  proof -
    from build_graph_returns [OF that] obtain n2 i2 g where bg: "build_graph net = Inr (n2, i2, g)"
      and sh: "shape g = (int (length (iterNodes net)) + 1, int (length (iterNodes net)) + 1)"
      and len: "length (data g) = length (iterRoadLinks net)" by blast
    from bg have "initializeShortestPaths sp net =
           Inr \<lparr>n2i = n2, i2n = i2, skim = fst (sp g), pred = snd (sp g)\<rparr>"
      by (simp add: initializeShortestPaths_def split: prod.splits)
    with bg sh len show ?thesis by blast
  qed
  have bad: "initializeShortestPaths sp net = Inl KeyError"
    if "\<exists>l \<in> set (iterRoadLinks net).
       getStartNodeId l \<notin> set (iterNodes net) \<or> getEndNodeId l \<notin> set (iterNodes net)"
    using build_graph_raises [OF that] by (simp add: initializeShortestPaths_def)
  have nolinks: "\<not> isl (initializeShortestPaths sp net)" if "iterRoadLinks net = []"
  proof -
    from that have "\<forall>l \<in> set (iterRoadLinks net).
       getStartNodeId l \<in> set (iterNodes net) \<and> getEndNodeId l \<in> set (iterNodes net)" by simp
    from ok [OF this] show ?thesis by auto
  qed
  have nonodes: "initializeShortestPaths sp net = Inl KeyError"
    if "iterNodes net = [] \<and> iterRoadLinks net \<noteq> []"
  proof -
    from that obtain l ls where "iterRoadLinks net = l # ls"
      by (cases "iterRoadLinks net") auto
    then have l: "l \<in> set (iterRoadLinks net)" by simp
    from that have "getStartNodeId l \<notin> set (iterNodes net)" by simp
    with l have "\<exists>l \<in> set (iterRoadLinks net).
       getStartNodeId l \<notin> set (iterNodes net) \<or> getEndNodeId l \<notin> set (iterNodes net)"
      by blast
    then show ?thesis by (rule bad)
  qed
  show ?thesis
    by (intro conjI impI;
        (rule ok, assumption | rule bad, assumption | rule nolinks, assumption |
         rule nonodes, assumption))
qed

theorem initialization_without_emptiness_check_witness:
  "iterRoadLinks net_empty = [] \<and>
   initializeShortestPaths shortest_path_empty net_empty =
     Inr \<lparr>n2i = Map.empty, i2n = Map.empty, skim = [[Finite 0]], pred = [[-9999]]\<rparr> \<and>
   build_graph net_empty =
     Inr (Map.empty, Map.empty, \<lparr>data = [], row_ind = [], col_ind = [], shape = (1, 1)\<rparr>) \<and>
   iterNodes net_no_nodes = [] \<and> iterRoadLinks net_no_nodes \<noteq> [] \<and>
   initializeShortestPaths shortest_path_empty net_no_nodes = Inl KeyError"
proof -
  have a: "iterNodes net_no_nodes = [] \<and> iterRoadLinks net_no_nodes \<noteq> []"
    by (simp add: net_no_nodes_def)
  with initialization_without_emptiness_check [of net_no_nodes shortest_path_empty]
  have "initializeShortestPaths shortest_path_empty net_no_nodes = Inl KeyError" by blast
  with a show ?thesis
    by (simp add: initializeShortestPaths_def build_graph_def net_empty_def
        shortest_path_empty_def)
qed

lemma mat_get_in_shape:
  assumes "has_shape m (r, c)" and "0 \<le> i" and "i < r" and "0 \<le> j" and "j < c"
  shows "mat_get m i j = Inr (m ! nat i ! nat j)"
proof -
  from assms(1) have len: "int (length m) = r" and rows: "\<forall>row \<in> set m. int (length row) = c"
    by (simp_all add: has_shape_def)
  from len assms(2,3) have "nat i < length m" by simp
  then have "m ! nat i \<in> set m" by simp
  with rows have "int (length (m ! nat i)) = c" by blast
  with len assms show ?thesis
    by (simp add: mat_get_def get_item_def position_def)
qed

lemma contract_entry:
  "shortest_path_contract g res \<Longrightarrow> 0 \<le> i \<Longrightarrow> i < fst (shape g) \<Longrightarrow>
   0 \<le> j \<Longrightarrow> j < snd (shape g) \<Longrightarrow>
   isinf (fst res ! nat i ! nat j) \<longleftrightarrow> (i, j) \<notin> (edges g)\<^sup>*"
  by (simp add: shortest_path_contract_def)

lemma edges_in_range:
  assumes "build_graph net = Inr (n2, i2, g)" and "(a, b) \<in> edges g"
  shows "0 \<le> a \<and> a < int (length (iterNodes net)) \<and> 0 \<le> b \<and> b < int (length (iterNodes net))"
proof -
  from assms(2) have "a \<in> set (row_ind g)" "b \<in> set (col_ind g)"
    by (auto simp: edges_def dest: set_zip_leftD set_zip_rightD)
  with build_graph_parts(4,5) [OF assms(1)] have "a \<in> ran n2" "b \<in> ran n2" by blast+
  then obtain x y where "n2 x = Some a" "n2 y = Some b" by (auto simp: ran_def)
  with build_graph_parts(1) [OF assms(1)]
  have "fst (index_nodes (iterNodes net) Map.empty Map.empty 0) x = Some a"
    "fst (index_nodes (iterNodes net) Map.empty Map.empty 0) y = Some b" by simp_all
  from index_nodes_n2i_range [OF this(1)] index_nodes_n2i_range [OF this(2)]
  show ?thesis by simp
qed

text \<open>
  C10. For a network of \<open>N\<close> nodes with distinct identifiers, and a shortest path
  routine that meets its contract on the graph built, the dictionaries assign the
  indices \<open>0\<close> to \<open>N - 1\<close> to the nodes in order, the graph and both matrices have
  shape \<open>(N+1) x (N+1)\<close>, the index \<open>N\<close> belongs to no node, no edge touches it, and
  in the skim matrix it is at infinite distance from and to every index of a node.
\<close>

theorem extra_index_unreachable:
  assumes "distinct (iterNodes net)"
    and "initializeShortestPaths sp net = Inr ri"
    and "\<forall>n2 i2 g. build_graph net = Inr (n2, i2, g) \<longrightarrow> shortest_path_contract g (sp g)"
  shows "(\<forall>k<length (iterNodes net).
            n2i ri (iterNodes net ! k) = Some (int k) \<and>
            i2n ri (int k) = Some (iterNodes net ! k)) \<and>
         dom (n2i ri) = set (iterNodes net) \<and>
         dom (i2n ri) = {0..<int (length (iterNodes net))} \<and>
         (\<exists>g. build_graph net = Inr (n2i ri, i2n ri, g) \<and>
              shape g = (int (length (iterNodes net)) + 1, int (length (iterNodes net)) + 1) \<and>
              (\<forall>(a, b) \<in> edges g. 0 \<le> a \<and> a < int (length (iterNodes net)) \<and>
                                   0 \<le> b \<and> b < int (length (iterNodes net)))) \<and>
         has_shape (skim ri) (int (length (iterNodes net)) + 1, int (length (iterNodes net)) + 1) \<and>
         has_shape (pred ri) (int (length (iterNodes net)) + 1, int (length (iterNodes net)) + 1) \<and>
         i2n ri (int (length (iterNodes net))) = None \<and>
         int (length (iterNodes net)) \<notin> ran (n2i ri) \<and>
         (\<forall>k. 0 \<le> k \<and> k < int (length (iterNodes net)) \<longrightarrow>
            isinf (skim ri ! length (iterNodes net) ! nat k) \<and>
            isinf (skim ri ! nat k ! length (iterNodes net)))"
proof -
  let ?ns = "iterNodes net"
  let ?N = "int (length ?ns)"
  from init_parts [OF assms(2)] obtain g where bg: "build_graph net = Inr (n2i ri, i2n ri, g)"
    and sk: "skim ri = fst (sp g)" and pr: "pred ri = snd (sp g)" by blast
  note parts = build_graph_parts [OF bg]
  from assms(3) bg have con: "shortest_path_contract g (sp g)" by blast
  have maps: "n2i ri (?ns ! k) = Some (int k) \<and> i2n ri (int k) = Some (?ns ! k)"
    if "k < length ?ns" for k
    using that index_nodes_n2i_distinct [OF assms(1) that, of Map.empty Map.empty 0]
      index_nodes_i2n [of ?ns Map.empty Map.empty 0 "int k"] parts(1,2)
    by simp
  have d1: "dom (n2i ri) = set ?ns"
    using index_nodes_n2i_dom [of ?ns Map.empty Map.empty 0] parts(1) by simp
  have i2: "i2n ri j = (if 0 \<le> j \<and> j < ?N then Some (?ns ! nat j) else None)" for j
    using index_nodes_i2n [of ?ns Map.empty Map.empty 0 j] parts(2) by simp
  have d2: "dom (i2n ri) = {0..<?N}"
    by (auto simp: i2 dom_def)
  have e: "\<forall>(a, b) \<in> edges g. 0 \<le> a \<and> a < ?N \<and> 0 \<le> b \<and> b < ?N"
    using edges_in_range [OF bg] by blast
  from con sk pr parts(3) have sh: "has_shape (skim ri) (?N + 1, ?N + 1)"
    "has_shape (pred ri) (?N + 1, ?N + 1)"
    by (simp_all add: shortest_path_contract_def)
  have noN: "i2n ri ?N = None" by (simp add: i2)
  have noran: "?N \<notin> ran (n2i ri)"
  proof
    assume "?N \<in> ran (n2i ri)"
    then obtain x where "n2i ri x = Some ?N" by (auto simp: ran_def)
    with parts(1) have "fst (index_nodes ?ns Map.empty Map.empty 0) x = Some ?N" by simp
    from index_nodes_n2i_range [OF this] show False by simp
  qed
  have unr: "isinf (skim ri ! length ?ns ! nat k) \<and> isinf (skim ri ! nat k ! length ?ns)"
    if k: "0 \<le> k \<and> k < ?N" for k
  proof -
    have a: "(?N, k) \<notin> (edges g)\<^sup>*"
    proof
      assume "(?N, k) \<in> (edges g)\<^sup>*"
      then show False
      proof (cases rule: converse_rtranclE)
        case base
        with k show ?thesis by simp
      next
        case (step y)
        with e show ?thesis by auto
      qed
    qed
    have b: "(k, ?N) \<notin> (edges g)\<^sup>*"
    proof
      assume "(k, ?N) \<in> (edges g)\<^sup>*"
      then show False
      proof (cases rule: rtranclE)
        case base
        with k show ?thesis by simp
      next
        case (step y)
        with e show ?thesis by auto
      qed
    qed
    from k parts(3)
    have "isinf (fst (sp g) ! nat ?N ! nat k) \<longleftrightarrow> (?N, k) \<notin> (edges g)\<^sup>*"
      "isinf (fst (sp g) ! nat k ! nat ?N) \<longleftrightarrow> (k, ?N) \<notin> (edges g)\<^sup>*"
      by (intro contract_entry [OF con]; simp)+
    with a b sk show ?thesis by simp
  qed
  from bg parts(3) e have gr: "\<exists>g. build_graph net = Inr (n2i ri, i2n ri, g) \<and>
      shape g = (?N + 1, ?N + 1) \<and>
      (\<forall>(a, b) \<in> edges g. 0 \<le> a \<and> a < ?N \<and> 0 \<le> b \<and> b < ?N)"
    by (intro exI [of _ g] conjI)
  from maps have f1: "\<forall>k<length ?ns.
      n2i ri (?ns ! k) = Some (int k) \<and> i2n ri (int k) = Some (?ns ! k)" by blast
  from unr have f9: "\<forall>k. 0 \<le> k \<and> k < ?N \<longrightarrow>
      isinf (skim ri ! length ?ns ! nat k) \<and> isinf (skim ri ! nat k ! length ?ns)" by blast
  note facts = f1 d1 d2 gr sh noN noran f9
  show ?thesis by (intro conjI; fact facts)
qed

lemma build_graph3:
  "build_graph net3 = Inr ([1 \<mapsto> 0, 2 \<mapsto> 1, 3 \<mapsto> 2], [0 \<mapsto> 1, 1 \<mapsto> 2, 2 \<mapsto> 3], graph3)"
  by (simp add: build_graph_def net3_def graph3_def)

lemma init3: "initializeShortestPaths shortest_path3 net3 = Inr ri3"
  by (simp add: initializeShortestPaths_def build_graph3 ri3_def shortest_path3_def)

lemma edges3: "(edges graph3)\<^sup>* = Id \<union> {(0, 1), (1, 2), (0, 2)}"
  by (simp add: edges_def graph3_def rtrancl_trancl_reflcl trancl_insert) auto

lemma contract3: "shortest_path_contract graph3 (shortest_path3 graph3)"
proof -
  have s: "shape graph3 = (4, 4)" by (simp add: graph3_def)
  have "isinf (skim3 ! nat i ! nat j) \<longleftrightarrow> (i, j) \<notin> (edges graph3)\<^sup>*"
    if "0 \<le> i \<and> i < 4 \<and> 0 \<le> j \<and> j < 4" for i j :: int
  proof -
    from that have "i = 0 \<or> i = 1 \<or> i = 2 \<or> i = 3" "j = 0 \<or> j = 1 \<or> j = 2 \<or> j = 3"
      by auto
    then show ?thesis
      by (elim disjE; simp add: edges3 skim3_def isinf_def)
  qed
  then show ?thesis
    by (simp add: shortest_path_contract_def s shortest_path3_def has_shape_def skim3_def
        pred3_def)
qed

lemma contract3_all:
  "\<forall>n2 i2 g. build_graph net3 = Inr (n2, i2, g) \<longrightarrow> shortest_path_contract g (shortest_path3 g)"
  by (simp add: build_graph3 contract3)

theorem extra_index_unreachable_witness:
  "distinct (iterNodes net3) \<and> initializeShortestPaths shortest_path3 net3 = Inr ri3 \<and>
   shortest_path_contract graph3 (shortest_path3 graph3) \<and>
   n2i ri3 3 = Some 2 \<and> i2n ri3 2 = Some 3 \<and> i2n ri3 3 = None \<and>
   has_shape (skim ri3) (4, 4) \<and> has_shape (pred ri3) (4, 4) \<and>
   isinf (skim ri3 ! 3 ! 0) \<and> isinf (skim ri3 ! 0 ! 3)"
proof -
  have d: "distinct (iterNodes net3)" by (simp add: net3_def)
  have l: "length (iterNodes net3) = 3" by (simp add: net3_def)
  note c = extra_index_unreachable [OF d init3 contract3_all, unfolded l]
  from c have "has_shape (skim ri3) (4, 4)" "has_shape (pred ri3) (4, 4)" "i2n ri3 3 = None"
    by simp_all
  moreover from c have "0 \<le> (0::int) \<and> (0::int) < int 3 \<longrightarrow>
      isinf (skim ri3 ! 3 ! nat 0) \<and> isinf (skim ri3 ! nat 0 ! 3)" by blast
  moreover have "n2i ri3 3 = Some 2" "i2n ri3 2 = Some 3" by (simp_all add: ri3_def)
  ultimately show ?thesis using d init3 contract3 by simp
qed

text \<open>
  C3. In the network of three nodes, with the routing index initialized by any
  shortest path routine that meets its contract, the states at half of link 10 and half
  of link 20 are joined by the path \<open>[10, 20]\<close> with no link between, the traversal ratios
  are \<open>[1/2, 1/2]\<close>, and ninety seconds from \<open>0\<close> to \<open>90\<close> are allocated as thirty
  seconds to link 10 and sixty seconds to link 20.
\<close>

theorem three_node_scenario:
  assumes "initializeShortestPaths sp net3 = Inr ri"
    and "\<forall>n2 i2 g. build_graph net3 = Inr (n2, i2, g) \<longrightarrow> shortest_path_contract g (sp g)"
  shows "getLinkOffsetRatio net3 state1 = Inr (1 / 2) \<and>
         getLinkOffsetRatio net3 state2 = Inr (1 / 2) \<and>
         getPaths net3 ri state1 state2 = Some (Inr [Some (Path state1 [10, 20] state2)]) \<and>
         getPathTraversalRatios net3 (Path state1 [10, 20] state2) = Inr [1 / 2, 1 / 2] \<and>
         allocatePathTravelTimeToLinks net3 (Path state1 [10, 20] state2) 0 90 =
           Inr ([10, 20], [1 / 2, 1 / 2], [30, 60])"
proof -
  from init_parts [OF assms(1)] obtain g where
    bg: "build_graph net3 = Inr (n2i ri, i2n ri, g)" and sk: "skim ri = fst (sp g)" by blast
  from bg build_graph3 have n2: "n2i ri = [1 \<mapsto> 0, 2 \<mapsto> 1, 3 \<mapsto> 2]"
    and i2: "i2n ri = [0 \<mapsto> 1, 1 \<mapsto> 2, 2 \<mapsto> 3]" and g: "g = graph3" by simp_all
  from assms(2) bg have con: "shortest_path_contract g (sp g)" by blast
  with sk g have sh: "has_shape (skim ri) (4, 4)"
    by (simp add: shortest_path_contract_def graph3_def)
  from g have "isinf (skim ri ! nat 1 ! nat 1) \<longleftrightarrow> (1, 1) \<notin> (edges g)\<^sup>*"
    unfolding sk by (intro contract_entry [OF con]) (simp_all add: graph3_def)
  moreover have "(1::int, 1::int) \<in> (edges g)\<^sup>*" by (rule rtrancl_refl)
  moreover have "nat 1 = 1" by simp
  ultimately have "\<not> isinf (skim ri ! 1 ! 1)" by metis
  moreover from mat_get_in_shape [OF sh, of 1 1]
  have "mat_get (skim ri) 1 1 = Inr (skim ri ! 1 ! 1)" by simp
  ultimately obtain cost where mg: "mat_get (skim ri) 1 1 = Inr cost" and fin: "\<not> isinf cost"
    by blast
  have tr: "trace_path (i2n ri) (pred ri) 1 1 [] = Some (Inr [])"
    by (subst trace_path.simps) simp
  have ns: "getShortestPathNodeSequence ri 2 2 = Some (Inr [Some 2])"
    by (simp add: getShortestPathNodeSequence_def n2 mg fin tr) (simp add: i2)
  have gp: "getPaths net3 ri state1 state2 = Some (Inr [Some (Path state1 [10, 20] state2)])"
    by (simp add: getPaths_def getLinkForId_def net3_def state1_def state2_def n2 mg fin ns)
  have r1: "getLinkOffsetRatio net3 state1 = Inr (1 / 2)"
    "getLinkOffsetRatio net3 state2 = Inr (1 / 2)"
    by (simp_all add: getLinkOffsetRatio_def getLinkForId_def net3_def state1_def state2_def)
  have rs: "getPathTraversalRatios net3 (Path state1 [10, 20] state2) = Inr [1 / 2, 1 / 2]"
    by (simp add: getPathTraversalRatios_def r1 Path_def set_item_def position_def)
  from gp r1 rs net3_allocate [of 0 90] show ?thesis by simp
qed

theorem three_node_scenario_witness:
  "initializeShortestPaths shortest_path3 net3 = Inr ri3 \<and>
   shortest_path_contract graph3 (shortest_path3 graph3) \<and>
   getPaths net3 ri3 state1 state2 = Some (Inr [Some (Path state1 [10, 20] state2)]) \<and>
   getPathTraversalRatios net3 (Path state1 [10, 20] state2) = Inr [1 / 2, 1 / 2] \<and>
   allocatePathTravelTimeToLinks net3 (Path state1 [10, 20] state2) 0 90 =
     Inr ([10, 20], [1 / 2, 1 / 2], [30, 60])"
  using three_node_scenario [OF init3 contract3_all] init3 contract3 by simp

end
